theory Spec2Isabelle
  imports Main "HOL-Library.Multiset"
begin

section \<open>Data model\<close>

text \<open>
  The protocol's usage range (\<open>{startOffset, endOffset, count}\<close>). Offsets and counts are
  JavaScript numbers holding integers; they are modelled as unbounded integers, on which
  the comparator's subtractions are exact. A field name that is an Isabelle keyword or
  a library constant (\<open>count\<close>, \<open>type\<close>, \<open>range\<close>, \<open>end\<close>, \<open>text\<close>, \<open>functions\<close>), or
  that two records share, carries a prime or a prefix.
\<close>

record CoverageRange =
  startOffset :: int
  endOffset :: int
  count' :: int

text \<open>A boundary point \<open>{offset, type, range}\<close>: \<open>type\<close> is 0 for a start and 1 for an end.\<close>

record Point =
  offset :: int
  type' :: int
  range' :: CoverageRange

text \<open>An element \<open>{start, end}\<close> of the merger's result.\<close>

record DisjointRange =
  start :: int
  end' :: int

record FunctionCoverage =
  functionName :: string
  ranges' :: "CoverageRange list"
  isBlockCoverage :: bool

record ScriptCoverage =
  scriptId :: string
  url' :: string
  functions' :: "FunctionCoverage list"

record ScriptParsedEvent =
  ev_scriptId :: string
  ev_url :: string

record StyleSheetHeader =
  styleSheetId :: string
  sourceURL :: string

record StyleSheetAddedEvent =
  header :: StyleSheetHeader

record RuleUsage =
  ru_styleSheetId :: string
  ru_startOffset :: int
  ru_endOffset :: int
  used :: bool

record CoverageEntry =
  url :: string
  text' :: string
  ranges :: "DisjointRange list"

record JSCoverageEntry = CoverageEntry +
  rawScriptCoverage :: "ScriptCoverage option"

record JSCoverageOptions =
  opt_resetOnNavigation :: "bool option"
  opt_reportAnonymousScripts :: "bool option"
  opt_includeRawScriptCoverage :: "bool option"
  opt_useBlockCoverage :: "bool option"

record CSSCoverageOptions =
  opt_resetOnNavigation' :: "bool option"

text \<open>
  Modelled from the spec: \<open>assert\<close> (\<open>util/assert.js\<close>) is not among the sources. As the
  specification's \<open>AlreadyEnabledError\<close> and \<open>NotEnabledError\<close> say, a failed assertion fails
  the call with an error, which carries the assertion's message; a protocol command that
  the target rejects fails the awaiting call with the protocol's error.
\<close>

datatype error = AssertionError string | ProtocolError string

section \<open>JavaScript \<open>Map\<close>\<close>

text \<open>
  A \<open>Map\<close> iterates its keys in the order of their first insertion, and \<open>set\<close> on a key
  already present replaces the value in place. It is an association list with unique
  keys.
\<close>

definition Map_get :: "('k \<times> 'v) list \<Rightarrow> 'k \<Rightarrow> 'v option" where
  "Map_get m k = map_of m k"

fun Map_set :: "('k \<times> 'v) list \<Rightarrow> 'k \<Rightarrow> 'v \<Rightarrow> ('k \<times> 'v) list" where
  "Map_set [] k v = [(k, v)]"
| "Map_set ((k', v') # m) k v =
     (if k' = k then (k, v) # m else (k', v') # Map_set m k v)"

definition Map_keys :: "('k \<times> 'v) list \<Rightarrow> 'k list" where
  "Map_keys m = map fst m"

section \<open>The range merger\<close>

text \<open>The comparator handed to \<open>points.sort\<close>.\<close>

definition comparePoints :: "Point \<Rightarrow> Point \<Rightarrow> int" where
  "comparePoints a b =
     (if offset a \<noteq> offset b then offset a - offset b
      else if type' a \<noteq> type' b then type' b - type' a
      else (let aLength = endOffset (range' a) - startOffset (range' a);
                bLength = endOffset (range' b) - startOffset (range' b)
            in if type' a = 0 then bLength - aLength else aLength - bLength))"

text \<open>
  \<open>Array.prototype.sort\<close> is stable: elements that compare equal keep their order. With a
  comparator that is a total preorder its result is the one a stable insertion sort
  gives.
\<close>

fun insertSorted :: "('a \<Rightarrow> 'a \<Rightarrow> int) \<Rightarrow> 'a \<Rightarrow> 'a list \<Rightarrow> 'a list" where
  "insertSorted c x [] = [x]"
| "insertSorted c x (y # ys) =
     (if c x y \<le> 0 then x # y # ys else y # insertSorted c x ys)"

definition array_sort :: "('a \<Rightarrow> 'a \<Rightarrow> int) \<Rightarrow> 'a list \<Rightarrow> 'a list" where
  "array_sort c xs = foldr (insertSorted c) xs []"

text \<open>The first loop: two points for each range, in the order of the input.\<close>

fun makePoints :: "CoverageRange list \<Rightarrow> Point list" where
  "makePoints [] = []"
| "makePoints (r # rs) =
     \<lparr>offset = startOffset r, type' = 0, range' = r\<rparr> #
     \<lparr>offset = endOffset r, type' = 1, range' = r\<rparr> # makePoints rs"

text \<open>
  The variables of the scanning loop. Both arrays grow at the end, so the top of the
  stack and the last result are the last elements; \<open>pop\<close> on an empty array leaves it
  empty.
\<close>

record ScanState =
  hitCountStack :: "int list"
  results :: "DisjointRange list"
  lastOffset :: int

definition scanStep :: "ScanState \<Rightarrow> Point \<Rightarrow> ScanState" where
  "scanStep s point =
     (let results1 =
            (if hitCountStack s \<noteq> [] \<and> lastOffset s < offset point
                \<and> last (hitCountStack s) > 0
             then (if results s \<noteq> [] \<and> end' (last (results s)) = lastOffset s
                   then butlast (results s) @ [(last (results s))\<lparr>end' := offset point\<rparr>]
                   else results s @ [\<lparr>start = lastOffset s, end' = offset point\<rparr>])
             else results s)
      in \<lparr>hitCountStack =
            (if type' point = 0 then hitCountStack s @ [count' (range' point)]
             else butlast (hitCountStack s)),
          results = results1,
          lastOffset = offset point\<rparr>)"

definition scanInit :: ScanState where
  "scanInit = \<lparr>hitCountStack = [], results = [], lastOffset = 0\<rparr>"

definition convertToDisjointRanges :: "CoverageRange list \<Rightarrow> DisjointRange list" where
  "convertToDisjointRanges nestedRanges =
     filter (\<lambda>r. end' r - start r > 0)
       (results (foldl scanStep scanInit
          (array_sort comparePoints (makePoints nestedRanges))))"

section \<open>The script tracker\<close>

text \<open>
  The private fields of \<open>JSCoverage\<close>. \<open>DisposableStack\<close> and \<open>EventSubscription\<close> are not
  among the sources: the stack of subscriptions is the list of the event names it holds,
  \<open>None\<close> while the field is undefined, and disposing empties it. The protocol client is
  outside the model: the reply to each command a method awaits is an argument of the
  method.
\<close>

record JSCoverage =
  enabled :: bool
  scriptURLs :: "(string \<times> string) list"
  scriptSources :: "(string \<times> string) list"
  subscriptions :: "string list option"
  resetOnNavigation :: bool
  reportAnonymousScripts :: bool
  includeRawScriptCoverage :: bool

definition JSCoverage_new :: JSCoverage where
  "JSCoverage_new =
     \<lparr>enabled = False, scriptURLs = [], scriptSources = [], subscriptions = None,
      resetOnNavigation = False, reportAnonymousScripts = False,
      includeRawScriptCoverage = False\<rparr>"

definition orDefault :: "'a option \<Rightarrow> 'a \<Rightarrow> 'a" where
  "orDefault v d = (case v of None \<Rightarrow> d | Some x \<Rightarrow> x)"

text \<open>
  \<open>start\<close>: the assertion, the fields, the two subscriptions, then the four commands
  awaited together; \<open>reply\<close> is their joint outcome.
\<close>

definition JSCoverage_start ::
  "JSCoverage \<Rightarrow> JSCoverageOptions \<Rightarrow> error + unit \<Rightarrow> (error + unit) \<times> JSCoverage" where
  "JSCoverage_start st options reply =
     (if enabled st then (Inl (AssertionError ''JSCoverage is already enabled''), st)
      else
        (let st1 = st\<lparr>resetOnNavigation := orDefault (opt_resetOnNavigation options) True,
                      reportAnonymousScripts :=
                        orDefault (opt_reportAnonymousScripts options) False,
                      includeRawScriptCoverage :=
                        orDefault (opt_includeRawScriptCoverage options) False,
                      enabled := True,
                      scriptURLs := [],
                      scriptSources := [],
                      subscriptions :=
                        Some [''Debugger.scriptParsed'',
                              ''Runtime.executionContextsCleared'']\<rparr>
         in (reply, st1)))"

definition JSCoverage_onExecutionContextsCleared :: "JSCoverage \<Rightarrow> JSCoverage" where
  "JSCoverage_onExecutionContextsCleared st =
     (if \<not> resetOnNavigation st then st
      else st\<lparr>scriptURLs := [], scriptSources := []\<rparr>)"


definition JSCoverage_onScriptParsed_resume ::
  "ScriptParsedEvent \<Rightarrow> error + string \<Rightarrow> JSCoverage \<Rightarrow> JSCoverage" where
  "JSCoverage_onScriptParsed_resume event response st =
     (case response of
        Inr scriptSource \<Rightarrow>
          st\<lparr>scriptURLs := Map_set (scriptURLs st) (ev_scriptId event) (ev_url event),
             scriptSources := Map_set (scriptSources st) (ev_scriptId event) scriptSource\<rparr>
      | Inl err \<Rightarrow> st)"


text \<open>
  The body of the loop of \<open>stop\<close> over the snapshot: \<open>None\<close> is \<open>continue\<close>. A URL is falsy
  when it is undefined or the empty string.
\<close>

definition JSCoverage_entryFor :: "JSCoverage \<Rightarrow> ScriptCoverage \<Rightarrow> JSCoverageEntry option" where
  "JSCoverage_entryFor st entry =
     (let url0 = Map_get (scriptURLs st) (scriptId entry);
          url1 = (if (url0 = None \<or> url0 = Some []) \<and> reportAnonymousScripts st
                  then Some (''debugger://VM'' @ scriptId entry) else url0);
          text0 = Map_get (scriptSources st) (scriptId entry)
      in case text0 of
           None \<Rightarrow> None
         | Some t \<Rightarrow>
             (case url1 of
                None \<Rightarrow> None
              | Some u \<Rightarrow>
                  (let flattenRanges = concat (map ranges' (functions' entry));
                       rs = convertToDisjointRanges flattenRanges
                   in if \<not> includeRawScriptCoverage st
                      then Some \<lparr>url = u, text' = t, ranges = rs, rawScriptCoverage = None\<rparr>
                      else Some \<lparr>url = u, text' = t, ranges = rs,
                                 rawScriptCoverage = Some entry\<rparr>)))"

fun JSCoverage_collect ::
  "JSCoverage \<Rightarrow> ScriptCoverage list \<Rightarrow> JSCoverageEntry list \<Rightarrow> JSCoverageEntry list" where
  "JSCoverage_collect st [] coverage = coverage"
| "JSCoverage_collect st (entry # rest) coverage =
     (case JSCoverage_entryFor st entry of
        None \<Rightarrow> JSCoverage_collect st rest coverage
      | Some e \<Rightarrow> JSCoverage_collect st rest (coverage @ [e]))"

text \<open>
  \<open>stop\<close>: \<open>reply\<close> is the outcome of the four commands awaited together, the snapshot of
  \<open>Profiler.takePreciseCoverage\<close> when all succeed.
\<close>

definition JSCoverage_stop ::
  "JSCoverage \<Rightarrow> error + ScriptCoverage list \<Rightarrow> (error + JSCoverageEntry list) \<times> JSCoverage" where
  "JSCoverage_stop st reply =
     (if \<not> enabled st then (Inl (AssertionError ''JSCoverage is not enabled''), st)
      else
        (let st1 = st\<lparr>enabled := False\<rparr>
         in case reply of
              Inl err \<Rightarrow> (Inl err, st1)
            | Inr profileResult \<Rightarrow>
                (let st2 = st1\<lparr>subscriptions := map_option (\<lambda>_. []) (subscriptions st1)\<rparr>
                 in (Inr (JSCoverage_collect st2 profileResult []), st2))))"

section \<open>The stylesheet tracker\<close>

record CSSCoverage =
  enabled' :: bool
  stylesheetURLs :: "(string \<times> string) list"
  stylesheetSources :: "(string \<times> string) list"
  eventListeners :: "string list option"
  resetOnNavigation' :: bool

definition CSSCoverage_new :: CSSCoverage where
  "CSSCoverage_new =
     \<lparr>enabled' = False, stylesheetURLs = [], stylesheetSources = [],
      eventListeners = None, resetOnNavigation' = False\<rparr>"

definition CSSCoverage_start ::
  "CSSCoverage \<Rightarrow> CSSCoverageOptions \<Rightarrow> error + unit \<Rightarrow> (error + unit) \<times> CSSCoverage" where
  "CSSCoverage_start st options reply =
     (if enabled' st then (Inl (AssertionError ''CSSCoverage is already enabled''), st)
      else
        (let st1 = st\<lparr>resetOnNavigation' := orDefault (opt_resetOnNavigation' options) True,
                      enabled' := True,
                      stylesheetURLs := [],
                      stylesheetSources := [],
                      eventListeners :=
                        Some [''CSS.styleSheetAdded'',
                              ''Runtime.executionContextsCleared'']\<rparr>
         in (reply, st1)))"

definition CSSCoverage_onExecutionContextsCleared :: "CSSCoverage \<Rightarrow> CSSCoverage" where
  "CSSCoverage_onExecutionContextsCleared st =
     (if \<not> resetOnNavigation' st then st
      else st\<lparr>stylesheetURLs := [], stylesheetSources := []\<rparr>)"

definition CSSCoverage_onStyleSheet_request ::
  "CSSCoverage \<Rightarrow> StyleSheetAddedEvent \<Rightarrow> string option" where
  "CSSCoverage_onStyleSheet_request st event =
     (if sourceURL (header event) = [] then None
      else Some (styleSheetId (header event)))"

definition CSSCoverage_onStyleSheet_resume ::
  "StyleSheetAddedEvent \<Rightarrow> error + string \<Rightarrow> CSSCoverage \<Rightarrow> CSSCoverage" where
  "CSSCoverage_onStyleSheet_resume event response st =
     (case response of
        Inr txt \<Rightarrow>
          st\<lparr>stylesheetURLs :=
               Map_set (stylesheetURLs st) (styleSheetId (header event))
                 (sourceURL (header event)),
             stylesheetSources :=
               Map_set (stylesheetSources st) (styleSheetId (header event)) txt\<rparr>
      | Inl err \<Rightarrow> st)"

definition CSSCoverage_onStyleSheet ::
  "StyleSheetAddedEvent \<Rightarrow> error + string \<Rightarrow> CSSCoverage \<Rightarrow> CSSCoverage" where
  "CSSCoverage_onStyleSheet event response st =
     (case CSSCoverage_onStyleSheet_request st event of
        None \<Rightarrow> st
      | Some sid \<Rightarrow> CSSCoverage_onStyleSheet_resume event response st)"

text \<open>
  The aggregation loop of \<open>stop\<close>: the array stored under a stylesheet id is created at the
  id's first rule and extended in place afterwards.
\<close>

fun aggregateRuleUsage ::
  "(string \<times> CoverageRange list) list \<Rightarrow> RuleUsage list \<Rightarrow> (string \<times> CoverageRange list) list" where
  "aggregateRuleUsage m [] = m"
| "aggregateRuleUsage m (entry # rest) =
     (let r = \<lparr>startOffset = ru_startOffset entry, endOffset = ru_endOffset entry,
               count' = (if used entry then 1 else 0)\<rparr>
      in aggregateRuleUsage
           (case Map_get m (ru_styleSheetId entry) of
              None \<Rightarrow> Map_set m (ru_styleSheetId entry) [r]
            | Some rs \<Rightarrow> Map_set m (ru_styleSheetId entry) (rs @ [r]))
           rest)"

text \<open>
  The result loop of \<open>stop\<close> over the keys of the URL map; each of its two assertions
  throws when the value is undefined.
\<close>

fun CSSCoverage_collect ::
  "CSSCoverage \<Rightarrow> (string \<times> CoverageRange list) list \<Rightarrow> string list \<Rightarrow>
     CoverageEntry list \<Rightarrow> error + CoverageEntry list" where
  "CSSCoverage_collect st styleSheetIdToCoverage [] coverage = Inr coverage"
| "CSSCoverage_collect st styleSheetIdToCoverage (sid # rest) coverage =
     (case Map_get (stylesheetURLs st) sid of
        None \<Rightarrow>
          Inl (AssertionError (''Stylesheet URL is undefined (styleSheetId='' @ sid @ '')''))
      | Some u \<Rightarrow>
          (case Map_get (stylesheetSources st) sid of
             None \<Rightarrow>
               Inl (AssertionError
                      (''Stylesheet text is undefined (styleSheetId='' @ sid @ '')''))
           | Some t \<Rightarrow>
               (let rs = convertToDisjointRanges
                           (case Map_get styleSheetIdToCoverage sid of
                              None \<Rightarrow> [] | Some x \<Rightarrow> x)
                in CSSCoverage_collect st styleSheetIdToCoverage rest
                     (coverage @ [\<lparr>url = u, text' = t, ranges = rs\<rparr>]))))"

text \<open>
  \<open>stop\<close> awaits twice: \<open>reply1\<close> is the outcome of \<open>CSS.stopRuleUsageTracking\<close> (its
  \<open>ruleUsage\<close> on success), \<open>reply2\<close> that of the two disabling commands.
\<close>

definition CSSCoverage_stop ::
  "CSSCoverage \<Rightarrow> error + RuleUsage list \<Rightarrow> error + unit \<Rightarrow>
     (error + CoverageEntry list) \<times> CSSCoverage" where
  "CSSCoverage_stop st reply1 reply2 =
     (if \<not> enabled' st then (Inl (AssertionError ''CSSCoverage is not enabled''), st)
      else
        (let st1 = st\<lparr>enabled' := False\<rparr>
         in case reply1 of
              Inl err \<Rightarrow> (Inl err, st1)
            | Inr ruleUsage \<Rightarrow>
                (case reply2 of
                   Inl err \<Rightarrow> (Inl err, st1)
                 | Inr u \<Rightarrow>
                     (let st2 = st1\<lparr>eventListeners :=
                                      map_option (\<lambda>_. []) (eventListeners st1)\<rparr>;
                          styleSheetIdToCoverage = aggregateRuleUsage [] ruleUsage
                      in (CSSCoverage_collect st2 styleSheetIdToCoverage
                            (Map_keys (stylesheetURLs st2)) [], st2)))))"

section \<open>The facade\<close>

record Coverage =
  jsCoverage :: JSCoverage
  cssCoverage :: CSSCoverage

definition Coverage_new :: Coverage where
  "Coverage_new = \<lparr>jsCoverage = JSCoverage_new, cssCoverage = CSSCoverage_new\<rparr>"

definition startJSCoverage ::
  "Coverage \<Rightarrow> JSCoverageOptions \<Rightarrow> error + unit \<Rightarrow> (error + unit) \<times> Coverage" where
  "startJSCoverage c options reply =
     (case JSCoverage_start (jsCoverage c) options reply of
        (r, js) \<Rightarrow> (r, c\<lparr>jsCoverage := js\<rparr>))"

definition stopJSCoverage ::
  "Coverage \<Rightarrow> error + ScriptCoverage list \<Rightarrow> (error + JSCoverageEntry list) \<times> Coverage" where
  "stopJSCoverage c reply =
     (case JSCoverage_stop (jsCoverage c) reply of
        (r, js) \<Rightarrow> (r, c\<lparr>jsCoverage := js\<rparr>))"

definition startCSSCoverage ::
  "Coverage \<Rightarrow> CSSCoverageOptions \<Rightarrow> error + unit \<Rightarrow> (error + unit) \<times> Coverage" where
  "startCSSCoverage c options reply =
     (case CSSCoverage_start (cssCoverage c) options reply of
        (r, css) \<Rightarrow> (r, c\<lparr>cssCoverage := css\<rparr>))"

definition stopCSSCoverage ::
  "Coverage \<Rightarrow> error + RuleUsage list \<Rightarrow> error + unit \<Rightarrow>
     (error + CoverageEntry list) \<times> Coverage" where
  "stopCSSCoverage c reply1 reply2 =
     (case CSSCoverage_stop (cssCoverage c) reply1 reply2 of
        (r, css) \<Rightarrow> (r, c\<lparr>cssCoverage := css\<rparr>))"

section \<open>Predicates and examples used in the statements\<close>

text \<open>
  The order the comparator defines: \<open>a\<close> may stand before \<open>b\<close>.
\<close>

definition pointLe :: "Point \<Rightarrow> Point \<Rightarrow> bool" where
  "pointLe a b = (comparePoints a b \<le> 0)"

text \<open>
  A result list whose ranges are not empty and each end strictly before the next starts.
\<close>

definition separated :: "DisjointRange list \<Rightarrow> bool" where
  "separated rs =
     (sorted_wrt (\<lambda>a b. end' a < start b) rs \<and> (\<forall>r\<in>set rs. start r < end' r))"

text \<open>
  The invariant of the scanning loop.
\<close>

definition scanInv :: "ScanState \<Rightarrow> bool" where
  "scanInv s =
     (separated (results s) \<and> (results s \<noteq> [] \<longrightarrow> end' (last (results s)) \<le> lastOffset s))"

text \<open>
  The start and the end of a usage range, as a result range.
\<close>

definition asDisjointRange :: "CoverageRange \<Rightarrow> DisjointRange" where
  "asDisjointRange u = \<lparr>start = startOffset u, end' = endOffset u\<rparr>"

text \<open>
  Ranges with the same start and the same end have the same hit count.
\<close>

definition sameSpanSameCount :: "CoverageRange list \<Rightarrow> bool" where
  "sameSpanSameCount rs =
     (\<forall>r\<in>set rs. \<forall>r'\<in>set rs.
        startOffset r = startOffset r' \<and> endOffset r = endOffset r' \<longrightarrow> count' r = count' r')"

text \<open>
  A range, and a point, with the hit count replaced by 1 when it is positive and by 0
  when it is not; and the lists in which ranges with the same start and the same end
  agree on whether they were hit.
\<close>

definition hitOnly :: "CoverageRange \<Rightarrow> CoverageRange" where
  "hitOnly r = r\<lparr>count' := (if 0 < count' r then 1 else 0)\<rparr>"

definition hitOnlyPoint :: "Point \<Rightarrow> Point" where
  "hitOnlyPoint q = q\<lparr>range' := hitOnly (range' q)\<rparr>"

definition sameSpanSameHit :: "CoverageRange list \<Rightarrow> bool" where
  "sameSpanSameHit rs =
     (\<forall>r\<in>set rs. \<forall>r'\<in>set rs.
        startOffset r = startOffset r' \<and> endOffset r = endOffset r' \<longrightarrow>
        (0 < count' r) = (0 < count' r'))"

text \<open>
  Position \<open>p\<close> lies in some range of a result; position \<open>p\<close> lies in a usage range. Ranges
  are half open: the end offset is the first position after the range.
\<close>

definition covers :: "DisjointRange list \<Rightarrow> int \<Rightarrow> bool" where
  "covers ds p = (\<exists>d\<in>set ds. start d \<le> p \<and> p < end' d)"

definition inRange :: "CoverageRange \<Rightarrow> int \<Rightarrow> bool" where
  "inRange r p = (startOffset r \<le> p \<and> p < endOffset r)"

text \<open>
  What a point does to the height of the stack.
\<close>

definition pointSign :: "Point \<Rightarrow> int" where
  "pointSign q = (if type' q = 0 then 1 else - 1)"

text \<open>
  Every range is well formed; every range is well formed and was hit.
\<close>

definition wellFormed :: "CoverageRange list \<Rightarrow> bool" where
  "wellFormed rs = (\<forall>r\<in>set rs. startOffset r < endOffset r)"

definition allHit :: "CoverageRange list \<Rightarrow> bool" where
  "allHit rs = (wellFormed rs \<and> (\<forall>r\<in>set rs. 0 < count' r))"

text \<open>
  The two points of a range, as \<open>makePoints\<close> builds them.
\<close>

definition openPoint :: "CoverageRange \<Rightarrow> Point" where
  "openPoint r = \<lparr>offset = startOffset r, type' = 0, range' = r\<rparr>"

definition closePoint :: "CoverageRange \<Rightarrow> Point" where
  "closePoint r = \<lparr>offset = endOffset r, type' = 1, range' = r\<rparr>"

text \<open>
  \<open>r\<close> lies inside \<open>r'\<close>; a list of well-formed ranges of which any two are disjoint or one
  lies inside the other, and of which equal spans have equal hit counts.
\<close>

definition nestedIn :: "CoverageRange \<Rightarrow> CoverageRange \<Rightarrow> bool" where
  "nestedIn r r' = (startOffset r' \<le> startOffset r \<and> endOffset r \<le> endOffset r')"

definition nestedSameCount :: "CoverageRange list \<Rightarrow> bool" where
  "nestedSameCount rs =
     (wellFormed rs \<and> sameSpanSameCount rs \<and>
      (\<forall>r\<in>set rs. \<forall>r'\<in>set rs.
         endOffset r \<le> startOffset r' \<or> endOffset r' \<le> startOffset r
         \<or> nestedIn r r' \<or> nestedIn r' r))"

text \<open>
  A range that contains position \<open>p\<close> and lies inside every range containing \<open>p\<close> has a
  positive hit count.
\<close>

definition innermostHit :: "CoverageRange list \<Rightarrow> int \<Rightarrow> bool" where
  "innermostHit rs p =
     (\<exists>r\<in>set rs. inRange r p \<and> 0 < count' r \<and> (\<forall>r'\<in>set rs. inRange r' p \<longrightarrow> nestedIn r r'))"

text \<open>
  The stack of the scan with the ranges themselves in place of their hit counts, and its
  invariant: a range is on the stack as often as it was opened and not closed, and each
  range on the stack lies inside those below it.
\<close>

definition rangeStack :: "Point list \<Rightarrow> CoverageRange list" where
  "rangeStack ds =
     foldl (\<lambda>st q. if type' q = 0 then st @ [range' q] else butlast st) [] ds"

definition stackInv :: "Point list \<Rightarrow> CoverageRange list \<Rightarrow> bool" where
  "stackInv ds st =
     ((\<forall>r. count (mset st) r + count (mset ds) (closePoint r) = count (mset ds) (openPoint r))
      \<and> sorted_wrt (\<lambda>a b. nestedIn b a) st)"

text \<open>
  A list is properly nested when its ranges are well formed, any two of them are disjoint
  or one lies inside the other, and equal spans agree on whether they were hit.
\<close>

definition properlyNested :: "CoverageRange list \<Rightarrow> bool" where
  "properlyNested rs =
     (wellFormed rs \<and> sameSpanSameHit rs \<and>
      (\<forall>r\<in>set rs. \<forall>r'\<in>set rs.
         endOffset r \<le> startOffset r' \<or> endOffset r' \<le> startOffset r
         \<or> nestedIn r r' \<or> nestedIn r' r))"

text \<open>
  Some range with a positive hit count contains position \<open>p\<close>.
\<close>

definition coveredByHit :: "CoverageRange list \<Rightarrow> int \<Rightarrow> bool" where
  "coveredByHit rs p = (\<exists>r\<in>set rs. 0 < count' r \<and> inRange r p)"

text \<open>
  The two maps of a tracker hold the same keys in the same order, each once.
\<close>

definition cacheConsistent :: "('k \<times> 'v) list \<Rightarrow> ('k \<times> 'w) list \<Rightarrow> bool" where
  "cacheConsistent urls sources = (map fst urls = map fst sources \<and> distinct (map fst urls))"

text \<open>
  \<open>x\<close> is the entry the result loop of the stylesheet tracker builds for stylesheet \<open>sid\<close>.
\<close>

definition entryOf ::
  "CSSCoverage \<Rightarrow> (string \<times> CoverageRange list) list \<Rightarrow> string \<Rightarrow> CoverageEntry \<Rightarrow> bool" where
  "entryOf st m sid x =
     (Map_get (stylesheetURLs st) sid = Some (url x)
      \<and> Map_get (stylesheetSources st) sid = Some (text' x)
      \<and> ranges x = convertToDisjointRanges (case Map_get m sid of None \<Rightarrow> [] | Some rs \<Rightarrow> rs))"

text \<open>
  The states of the stylesheet tracker: a new tracker, and what the methods and the
  handlers, run with any arguments and any replies of the protocol, make of a state.
\<close>

inductive CSSCoverage_reachable :: "CSSCoverage \<Rightarrow> bool" where
  new: "CSSCoverage_reachable CSSCoverage_new"
| start: "CSSCoverage_reachable st \<Longrightarrow>
    CSSCoverage_reachable (snd (CSSCoverage_start st options reply))"
| styleSheet: "CSSCoverage_reachable st \<Longrightarrow>
    CSSCoverage_reachable (CSSCoverage_onStyleSheet_resume event response st)"
| cleared: "CSSCoverage_reachable st \<Longrightarrow>
    CSSCoverage_reachable (CSSCoverage_onExecutionContextsCleared st)"
| stop: "CSSCoverage_reachable st \<Longrightarrow>
    CSSCoverage_reachable (snd (CSSCoverage_stop st reply1 reply2))"

text \<open>
  Trackers used as examples: a script tracker started with the default options, after the
  sources of two scripts arrived; a stylesheet tracker after the texts of two stylesheets
  arrived; a script tracker just started, with \<open>reportAnonymousScripts\<close> as given; and a
  predicate for which no URL is one of the tooling's own.
\<close>

definition noOptions :: JSCoverageOptions where
  "noOptions = \<lparr>opt_resetOnNavigation = None, opt_reportAnonymousScripts = None,
     opt_includeRawScriptCoverage = None, opt_useBlockCoverage = None\<rparr>"

definition twoScripts :: JSCoverage where
  "twoScripts =
     JSCoverage_onScriptParsed_resume \<lparr>ev_scriptId = ''2'', ev_url = ''b.js''\<rparr> (Inr ''g()'')
       (JSCoverage_onScriptParsed_resume \<lparr>ev_scriptId = ''1'', ev_url = ''a.js''\<rparr> (Inr ''f()'')
          (snd (JSCoverage_start JSCoverage_new noOptions (Inr ()))))"

definition twoSheets :: CSSCoverage where
  "twoSheets =
     CSSCoverage_onStyleSheet_resume
         \<lparr>header = \<lparr>styleSheetId = ''t'', sourceURL = ''b.css''\<rparr>\<rparr> (Inr ''q {}'')
       (CSSCoverage_onStyleSheet_resume
            \<lparr>header = \<lparr>styleSheetId = ''s'', sourceURL = ''a.css''\<rparr>\<rparr> (Inr ''p {}'')
          (snd (CSSCoverage_start CSSCoverage_new \<lparr>opt_resetOnNavigation' = None\<rparr> (Inr ()))))"



section \<open>Properties\<close>

subsection \<open>The scenarios of the specification\<close>

text \<open>
  C5. On the three scenarios of the specification the merger returns the stated lists:
  \<open>[(0,10,1),(2,5,1)]\<close> gives \<open>[(0,10)]\<close>, \<open>[(0,5,1),(5,10,1)]\<close> gives \<open>[(0,10)]\<close>, and
  \<open>[(0,5,0),(5,10,1)]\<close> gives \<open>[(5,10)]\<close>.
\<close>

theorem convertToDisjointRanges_scenarios:
  "convertToDisjointRanges
     [\<lparr>startOffset = 0, endOffset = 10, count' = 1\<rparr>,
      \<lparr>startOffset = 2, endOffset = 5, count' = 1\<rparr>] = [\<lparr>start = 0, end' = 10\<rparr>]
   \<and> convertToDisjointRanges
     [\<lparr>startOffset = 0, endOffset = 5, count' = 1\<rparr>,
      \<lparr>startOffset = 5, endOffset = 10, count' = 1\<rparr>] = [\<lparr>start = 0, end' = 10\<rparr>]
   \<and> convertToDisjointRanges
     [\<lparr>startOffset = 0, endOffset = 5, count' = 0\<rparr>,
      \<lparr>startOffset = 5, endOffset = 10, count' = 1\<rparr>] = [\<lparr>start = 5, end' = 10\<rparr>]"
  by (simp add: convertToDisjointRanges_def array_sort_def comparePoints_def scanStep_def
      scanInit_def)

subsection \<open>The comparator and the sort\<close>

lemma comparePoints_tie_break:
  "offset a < offset b \<Longrightarrow> comparePoints a b < 0"
  "offset a = offset b \<Longrightarrow> type' a = 1 \<Longrightarrow> type' b = 0 \<Longrightarrow> comparePoints a b < 0"
  "offset a = offset b \<Longrightarrow> type' a = 0 \<Longrightarrow> type' b = 0 \<Longrightarrow>
     endOffset (range' b) - startOffset (range' b) < endOffset (range' a) - startOffset (range' a)
     \<Longrightarrow> comparePoints a b < 0"
  "offset a = offset b \<Longrightarrow> type' a = 1 \<Longrightarrow> type' b = 1 \<Longrightarrow>
     endOffset (range' a) - startOffset (range' a) < endOffset (range' b) - startOffset (range' b)
     \<Longrightarrow> comparePoints a b < 0"
  by (simp_all add: comparePoints_def)

lemma pointLe_total: "pointLe a b \<or> pointLe b a"
  by (auto simp: pointLe_def comparePoints_def Let_def)

lemma pointLe_trans: "pointLe a b \<Longrightarrow> pointLe b c \<Longrightarrow> pointLe a c"
  by (auto simp: pointLe_def comparePoints_def Let_def split: if_splits)

lemma pointLe_offset: "pointLe a b \<Longrightarrow> offset a \<le> offset b"
  by (auto simp: pointLe_def comparePoints_def Let_def split: if_splits)

lemma mset_insertSorted: "mset (insertSorted c x xs) = add_mset x (mset xs)"
  by (induction xs) auto

lemma mset_array_sort: "mset (array_sort c xs) = mset xs"
  by (induction xs) (auto simp: array_sort_def mset_insertSorted)

lemma set_insertSorted: "set (insertSorted c x xs) = insert x (set xs)"
  by (induction xs) auto

lemma set_array_sort: "set (array_sort c xs) = set xs"
  by (induction xs) (auto simp: array_sort_def set_insertSorted)

lemma sorted_insertSorted:
  "sorted_wrt pointLe xs \<Longrightarrow> sorted_wrt pointLe (insertSorted comparePoints x xs)"
proof (induction xs)
  case Nil
  then show ?case by simp
next
  case (Cons y ys)
  show ?case
  proof (cases "comparePoints x y \<le> 0")
    case True
    then have "pointLe x y" by (simp add: pointLe_def)
    with Cons.prems have "\<forall>z\<in>set (y # ys). pointLe x z"
      by (auto intro: pointLe_trans)
    with True Cons.prems show ?thesis by simp
  next
    case False
    then have "pointLe y x" using pointLe_total [of x y] by (simp add: pointLe_def)
    with False Cons show ?thesis by (auto simp: set_insertSorted)
  qed
qed

lemma sorted_array_sort: "sorted_wrt pointLe (array_sort comparePoints xs)"
proof (induction xs)
  case Nil
  then show ?case by (simp add: array_sort_def)
next
  case (Cons x xs)
  then show ?case using sorted_insertSorted [of "array_sort comparePoints xs" x]
    by (simp add: array_sort_def)
qed

lemma sorted_offsets_array_sort:
  "sorted_wrt (\<lambda>a b. offset a \<le> offset b) (array_sort comparePoints xs)"
  using sorted_array_sort [of xs] by (rule sorted_wrt_mono_rel [rotated]) (simp add: pointLe_offset)

lemma array_sort_sorted:
  "sorted_wrt pointLe xs \<Longrightarrow> array_sort comparePoints xs = xs"
proof (induction xs)
  case Nil
  then show ?case by (simp add: array_sort_def)
next
  case (Cons x xs)
  then have eq: "array_sort comparePoints xs = xs" by simp
  have "insertSorted comparePoints x xs = x # xs"
  proof (cases xs)
    case Nil
    then show ?thesis by simp
  next
    case (Cons y ys)
    with Cons.prems have "comparePoints x y \<le> 0" by (simp add: pointLe_def)
    with Cons show ?thesis by simp
  qed
  with eq show ?case by (simp add: array_sort_def)
qed

subsection \<open>The results of the scan are separated\<close>

lemma separated_snoc:
  "separated (rs @ [r]) =
     (separated rs \<and> start r < end' r \<and> (\<forall>a\<in>set rs. end' a < start r))"
  by (auto simp: separated_def sorted_wrt_append)

lemma separated_ends:
  "separated (rs @ [r]) \<Longrightarrow> a \<in> set rs \<Longrightarrow> end' a < end' r"
  by (fastforce simp: separated_snoc)

lemma scanStep_lastOffset [simp]: "lastOffset (scanStep s p) = offset p"
  by (simp add: scanStep_def Let_def)

lemma scanStep_hitCountStack:
  "hitCountStack (scanStep s p) =
     (if type' p = 0 then hitCountStack s @ [count' (range' p)] else butlast (hitCountStack s))"
  by (simp add: scanStep_def Let_def)

lemma scanStep_skip:
  "\<not> (hitCountStack s \<noteq> [] \<and> lastOffset s < offset p \<and> last (hitCountStack s) > 0)
     \<Longrightarrow> results (scanStep s p) = results s"
  by (auto simp add: scanStep_def Let_def)

lemma scanStep_extend:
  "hitCountStack s \<noteq> [] \<Longrightarrow> lastOffset s < offset p \<Longrightarrow> last (hitCountStack s) > 0
     \<Longrightarrow> results s = ys @ [y] \<Longrightarrow> end' y = lastOffset s
     \<Longrightarrow> results (scanStep s p) = ys @ [y\<lparr>end' := offset p\<rparr>]"
  by (simp add: scanStep_def Let_def)

lemma scanStep_push:
  "hitCountStack s \<noteq> [] \<Longrightarrow> lastOffset s < offset p \<Longrightarrow> last (hitCountStack s) > 0
     \<Longrightarrow> results s = [] \<or> end' (last (results s)) \<noteq> lastOffset s
     \<Longrightarrow> results (scanStep s p) = results s @ [\<lparr>start = lastOffset s, end' = offset p\<rparr>]"
  by (auto simp add: scanStep_def Let_def)

lemma scanStep_inv:
  assumes "scanInv s" and "results s \<noteq> [] \<longrightarrow> lastOffset s \<le> offset p"
  shows "scanInv (scanStep s p)"
proof (cases "results s" rule: rev_cases)
  case Nil
  with assms show ?thesis
    by (simp add: scanInv_def scanStep_def Let_def separated_def)
next
  case (snoc ys y)
  from assms(1) snoc have sep: "separated (ys @ [y])" and le: "end' y \<le> lastOffset s"
    by (simp_all add: scanInv_def)
  from sep have y: "start y < end' y" and ys: "separated ys"
    and before: "\<forall>a\<in>set ys. end' a < start y"
    by (simp_all add: separated_snoc)
  from assms(2) snoc have lo: "lastOffset s \<le> offset p" by simp
  show ?thesis
  proof (cases "hitCountStack s \<noteq> [] \<and> lastOffset s < offset p \<and> last (hitCountStack s) > 0")
    case False
    with snoc sep le lo show ?thesis
      by (auto simp: scanInv_def scanStep_def Let_def)
  next
    case True
    show ?thesis
    proof (cases "end' y = lastOffset s")
      case True
      with \<open>hitCountStack s \<noteq> [] \<and> lastOffset s < offset p \<and> last (hitCountStack s) > 0\<close>
      have "results (scanStep s p) = ys @ [y\<lparr>end' := offset p\<rparr>]"
        using snoc by (simp add: scanStep_def Let_def)
      moreover have "separated (ys @ [y\<lparr>end' := offset p\<rparr>])"
        using ys before y True \<open>hitCountStack s \<noteq> [] \<and> lastOffset s < offset p \<and> last (hitCountStack s) > 0\<close>
        by (simp add: separated_snoc)
      ultimately show ?thesis by (simp add: scanInv_def)
    next
      case False
      with True have "results (scanStep s p) = ys @ [y, \<lparr>start = lastOffset s, end' = offset p\<rparr>]"
        using snoc by (simp add: scanStep_def Let_def)
      moreover have "separated ((ys @ [y]) @ [\<lparr>start = lastOffset s, end' = offset p\<rparr>])"
        unfolding separated_snoc [of "ys @ [y]"]
        using sep le False True separated_ends [OF sep] by fastforce
      ultimately show ?thesis by (simp add: scanInv_def)
    qed
  qed
qed

lemma scan_inv:
  assumes "sorted_wrt (\<lambda>a b. offset a \<le> offset b) ps" and "scanInv s"
    and "results s \<noteq> [] \<longrightarrow> (\<forall>p\<in>set ps. lastOffset s \<le> offset p)"
  shows "scanInv (foldl scanStep s ps)"
  using assms
proof (induction ps arbitrary: s)
  case Nil
  then show ?case by simp
next
  case (Cons p ps)
  have "scanInv (scanStep s p)"
    using Cons.prems by (intro scanStep_inv) auto
  moreover have "\<forall>q\<in>set ps. lastOffset (scanStep s p) \<le> offset q"
    using Cons.prems(1) by simp
  ultimately show ?case using Cons.IH [of "scanStep s p"] Cons.prems(1) by simp
qed

lemma scanInv_init: "scanInv scanInit"
  by (simp add: scanInv_def scanInit_def separated_def)

lemma separated_filter: "separated rs \<Longrightarrow> separated (filter P rs)"
  by (auto simp: separated_def intro: sorted_wrt_filter)

lemma filter_separated: "separated rs \<Longrightarrow> filter (\<lambda>r. end' r - start r > 0) rs = rs"
  by (auto simp: separated_def intro!: filter_True)

lemma separated_scan:
  "separated (results (foldl scanStep scanInit (array_sort comparePoints ps)))"
  using scan_inv [OF sorted_offsets_array_sort scanInv_init, of ps]
  by (simp add: scanInv_def scanInit_def)

lemma separated_convert: "separated (convertToDisjointRanges rs)"
  unfolding convertToDisjointRanges_def by (intro separated_filter separated_scan)

lemma convert_eq_results:
  "convertToDisjointRanges rs =
     results (foldl scanStep scanInit (array_sort comparePoints (makePoints rs)))"
  unfolding convertToDisjointRanges_def by (intro filter_separated separated_scan)

text \<open>
  C2. For every list of usage ranges the result of the merger is sorted by \<open>start\<close>
  ascending, every result range has \<open>start < end\<close>, an earlier result range ends no later
  than a later one starts (no overlap), and a result range never ends where the next one
  starts (no two adjacent ranges are contiguous).
\<close>

theorem convertToDisjointRanges_minimal:
  "sorted (map start (convertToDisjointRanges rs))
   \<and> (\<forall>r\<in>set (convertToDisjointRanges rs). start r < end' r)
   \<and> (\<forall>i j. i < j \<and> j < length (convertToDisjointRanges rs) \<longrightarrow>
         end' (convertToDisjointRanges rs ! i) \<le> start (convertToDisjointRanges rs ! j))
   \<and> (\<forall>i. Suc i < length (convertToDisjointRanges rs) \<longrightarrow>
         end' (convertToDisjointRanges rs ! i) \<noteq> start (convertToDisjointRanges rs ! Suc i))"
proof -
  let ?out = "convertToDisjointRanges rs"
  have sep: "separated ?out" by (rule separated_convert)
  then have sw: "sorted_wrt (\<lambda>a b. end' a < start b) ?out"
    and pos: "\<forall>r\<in>set ?out. start r < end' r"
    by (simp_all add: separated_def)
  have gap: "end' (?out ! i) < start (?out ! j)" if "i < j" "j < length ?out" for i j
    using sw that by (simp add: sorted_wrt_iff_nth_less)
  have "sorted_wrt (\<lambda>a b. start a \<le> start b) ?out"
  proof (rule sorted_wrt_mono_rel [OF _ sw])
    fix a b assume "a \<in> set ?out" "b \<in> set ?out" "end' a < start b"
    with pos show "start a \<le> start b" by fastforce
  qed
  then have "sorted (map start ?out)" by (simp add: sorted_map)
  moreover have "\<forall>i j. i < j \<and> j < length ?out \<longrightarrow> end' (?out ! i) \<le> start (?out ! j)"
    using gap by (auto intro: less_imp_le)
  moreover have "\<forall>i. Suc i < length ?out \<longrightarrow> end' (?out ! i) \<noteq> start (?out ! Suc i)"
    using gap [of _ "Suc _"] by fastforce
  ultimately show ?thesis using pos by blast
qed

text \<open>
  The four properties on an input whose result has three ranges.
\<close>

theorem convertToDisjointRanges_minimal_witness:
  "convertToDisjointRanges [\<lparr>startOffset = 7, endOffset = 9, count' = 1\<rparr>,
                            \<lparr>startOffset = 0, endOffset = 5, count' = 1\<rparr>,
                            \<lparr>startOffset = 2, endOffset = 3, count' = 0\<rparr>]
     = [\<lparr>start = 0, end' = 2\<rparr>, \<lparr>start = 3, end' = 5\<rparr>, \<lparr>start = 7, end' = 9\<rparr>]
   \<and> sorted (map start [\<lparr>start = 0, end' = 2\<rparr>, \<lparr>start = 3, end' = 5\<rparr>, \<lparr>start = 7, end' = 9\<rparr>])
   \<and> length (convertToDisjointRanges [\<lparr>startOffset = 7, endOffset = 9, count' = 1\<rparr>,
                            \<lparr>startOffset = 0, endOffset = 5, count' = 1\<rparr>,
                            \<lparr>startOffset = 2, endOffset = 3, count' = 0\<rparr>]) = 3
   \<and> end' (convertToDisjointRanges [\<lparr>startOffset = 7, endOffset = 9, count' = 1\<rparr>,
                            \<lparr>startOffset = 0, endOffset = 5, count' = 1\<rparr>,
                            \<lparr>startOffset = 2, endOffset = 3, count' = 0\<rparr>] ! 0)
       \<noteq> start (convertToDisjointRanges [\<lparr>startOffset = 7, endOffset = 9, count' = 1\<rparr>,
                            \<lparr>startOffset = 0, endOffset = 5, count' = 1\<rparr>,
                            \<lparr>startOffset = 2, endOffset = 3, count' = 0\<rparr>] ! Suc 0)"
proof -
  have eq: "convertToDisjointRanges [\<lparr>startOffset = 7, endOffset = 9, count' = 1\<rparr>,
                            \<lparr>startOffset = 0, endOffset = 5, count' = 1\<rparr>,
                            \<lparr>startOffset = 2, endOffset = 3, count' = 0\<rparr>]
     = [\<lparr>start = 0, end' = 2\<rparr>, \<lparr>start = 3, end' = 5\<rparr>, \<lparr>start = 7, end' = 9\<rparr>]"
    by (simp add: convertToDisjointRanges_def array_sort_def comparePoints_def scanStep_def
      scanInit_def)
  note w = convertToDisjointRanges_minimal [of "[\<lparr>startOffset = 7, endOffset = 9, count' = 1\<rparr>,
                            \<lparr>startOffset = 0, endOffset = 5, count' = 1\<rparr>,
                            \<lparr>startOffset = 2, endOffset = 3, count' = 0\<rparr>]"]
  have len: "length (convertToDisjointRanges [\<lparr>startOffset = 7, endOffset = 9, count' = 1\<rparr>,
                            \<lparr>startOffset = 0, endOffset = 5, count' = 1\<rparr>,
                            \<lparr>startOffset = 2, endOffset = 3, count' = 0\<rparr>]) = 3"
    by (simp add: eq)
  from w have "sorted (map start (convertToDisjointRanges
       [\<lparr>startOffset = 7, endOffset = 9, count' = 1\<rparr>,
        \<lparr>startOffset = 0, endOffset = 5, count' = 1\<rparr>,
        \<lparr>startOffset = 2, endOffset = 3, count' = 0\<rparr>]))" by blast
  then have s: "sorted (map start [\<lparr>start = 0, end' = 2\<rparr>, \<lparr>start = 3, end' = 5\<rparr>, \<lparr>start = 7, end' = 9\<rparr>])"
    by (simp only: eq)
  from w len have "end' (convertToDisjointRanges [\<lparr>startOffset = 7, endOffset = 9, count' = 1\<rparr>,
                            \<lparr>startOffset = 0, endOffset = 5, count' = 1\<rparr>,
                            \<lparr>startOffset = 2, endOffset = 3, count' = 0\<rparr>] ! 0)
       \<noteq> start (convertToDisjointRanges [\<lparr>startOffset = 7, endOffset = 9, count' = 1\<rparr>,
                            \<lparr>startOffset = 0, endOffset = 5, count' = 1\<rparr>,
                            \<lparr>startOffset = 2, endOffset = 3, count' = 0\<rparr>] ! Suc 0)"
    by (metis One_nat_def Suc_1 lessI numeral_3_eq_3 Suc_lessD)
  with eq s len show ?thesis by blast
qed

subsection \<open>Merging a separated list gives it back\<close>

lemma asDisjointRange_simps [simp]:
  "start (asDisjointRange u) = startOffset u"
  "end' (asDisjointRange u) = endOffset u"
  by (simp_all add: asDisjointRange_def)

lemma set_makePoints:
  "set (makePoints rs) =
     (\<Union>r\<in>set rs. {\<lparr>offset = startOffset r, type' = 0, range' = r\<rparr>,
                    \<lparr>offset = endOffset r, type' = 1, range' = r\<rparr>})"
  by (induction rs) auto

lemma separated_Cons:
  "separated (x # xs) = (start x < end' x \<and> (\<forall>a\<in>set xs. end' x < start a) \<and> separated xs)"
  by (auto simp: separated_def)

lemma separated_last_before:
  "separated (acc @ x # xs) \<Longrightarrow> acc \<noteq> [] \<Longrightarrow> end' (last acc) < start x"
  by (auto simp: separated_def sorted_wrt_append)

lemma sorted_makePoints_separated:
  "separated (map asDisjointRange us) \<Longrightarrow> sorted_wrt pointLe (makePoints us)"
proof (induction us)
  case Nil
  then show ?case by simp
next
  case (Cons u us)
  from Cons.prems have u: "startOffset u < endOffset u"
    and after: "\<forall>a\<in>set us. endOffset u < startOffset a"
    and pos: "\<forall>a\<in>set us. startOffset a < endOffset a"
    and us: "separated (map asDisjointRange us)"
    by (auto simp: separated_Cons separated_def)
  have later: "endOffset u < offset q" if "q \<in> set (makePoints us)" for q
    using that after pos by (fastforce simp: set_makePoints)
  have "pointLe \<lparr>offset = startOffset u, type' = 0, range' = u\<rparr> q"
    and "pointLe \<lparr>offset = endOffset u, type' = 1, range' = u\<rparr> q"
    if "q \<in> set (makePoints us)" for q
    using later [OF that] u by (simp_all add: pointLe_def comparePoints_def)
  moreover have "pointLe \<lparr>offset = startOffset u, type' = 0, range' = u\<rparr>
                   \<lparr>offset = endOffset u, type' = 1, range' = u\<rparr>"
    using u by (simp add: pointLe_def comparePoints_def)
  ultimately show ?case using Cons.IH [OF us] by simp
qed

lemma scan_separated:
  assumes "separated (acc @ map asDisjointRange us)" and "\<forall>u\<in>set us. 0 < count' u"
    and "hitCountStack s = []" and "results s = acc"
  shows "results (foldl scanStep s (makePoints us)) = acc @ map asDisjointRange us"
  using assms
proof (induction us arbitrary: s acc)
  case Nil
  then show ?case by simp
next
  case (Cons u us)
  let ?s1 = "scanStep s \<lparr>offset = startOffset u, type' = 0, range' = u\<rparr>"
  let ?s2 = "scanStep ?s1 \<lparr>offset = endOffset u, type' = 1, range' = u\<rparr>"
  from Cons.prems(1) have sep: "separated (acc @ asDisjointRange u # map asDisjointRange us)"
    by simp
  then have u: "startOffset u < endOffset u" by (auto simp: separated_def)
  from Cons.prems(2) have hit: "0 < count' u" by simp
  have s1: "hitCountStack ?s1 = [count' u]" "results ?s1 = acc" "lastOffset ?s1 = startOffset u"
    using Cons.prems(3,4) by (simp_all add: scanStep_hitCountStack scanStep_skip)
  have no_touch: "results ?s1 = [] \<or> end' (last (results ?s1)) \<noteq> lastOffset ?s1"
    using separated_last_before [OF sep] unfolding s1 by auto
  have "results ?s2 = results ?s1 @ [\<lparr>start = lastOffset ?s1, end' = endOffset u\<rparr>]"
    using scanStep_push [OF _ _ _ no_touch, of "\<lparr>offset = endOffset u, type' = 1, range' = u\<rparr>"]
      s1(1,3) u hit by simp
  then have s2r: "results ?s2 = acc @ [asDisjointRange u]"
    unfolding s1 by (simp add: asDisjointRange_def)
  have s2s: "hitCountStack ?s2 = []"
    unfolding scanStep_hitCountStack [of ?s1] s1 by simp
  have "results (foldl scanStep ?s2 (makePoints us))
          = (acc @ [asDisjointRange u]) @ map asDisjointRange us"
    using sep Cons.prems(2) s2s s2r by (intro Cons.IH) simp_all
  then show ?case by simp
qed

lemma convert_separated:
  assumes "separated (map asDisjointRange us)" and "\<forall>u\<in>set us. 0 < count' u"
  shows "convertToDisjointRanges us = map asDisjointRange us"
proof -
  have "array_sort comparePoints (makePoints us) = makePoints us"
    using assms(1) by (intro array_sort_sorted sorted_makePoints_separated)
  moreover have "results (foldl scanStep scanInit (makePoints us)) = [] @ map asDisjointRange us"
    using assms by (intro scan_separated) (simp_all add: scanInit_def)
  ultimately have "convertToDisjointRanges us
      = filter (\<lambda>r. end' r - start r > 0) (map asDisjointRange us)"
    by (simp only: convertToDisjointRanges_def append_Nil)
  then show ?thesis using filter_separated [OF assms(1)] by (simp only:)
qed

text \<open>
  C4. The merger is idempotent: whenever a list of usage ranges with positive hit counts
  has, range by range, the starts and ends of the merger's result for some input, the
  merger maps that list to the same result again.
\<close>

theorem convertToDisjointRanges_idempotent:
  assumes "map asDisjointRange us = convertToDisjointRanges rs"
    and "\<forall>u\<in>set us. 0 < count' u"
  shows "convertToDisjointRanges us = convertToDisjointRanges rs"
proof -
  have "separated (map asDisjointRange us)"
    unfolding assms(1) by (rule separated_convert)
  from convert_separated [OF this assms(2)] assms(1) show ?thesis by simp
qed

text \<open>
  A result of two ranges, read with hit counts 3 and 1 and merged again.
\<close>

theorem convertToDisjointRanges_idempotent_witness:
  "map asDisjointRange [\<lparr>startOffset = 0, endOffset = 5, count' = 3\<rparr>,
                        \<lparr>startOffset = 7, endOffset = 9, count' = 1\<rparr>]
     = convertToDisjointRanges [\<lparr>startOffset = 7, endOffset = 9, count' = 2\<rparr>,
                                 \<lparr>startOffset = 0, endOffset = 3, count' = 1\<rparr>,
                                 \<lparr>startOffset = 3, endOffset = 5, count' = 1\<rparr>]
   \<and> 0 < count' \<lparr>startOffset = 0, endOffset = 5, count' = 3\<rparr>
   \<and> 0 < count' \<lparr>startOffset = 7, endOffset = 9, count' = 1\<rparr>
   \<and> convertToDisjointRanges [\<lparr>startOffset = 0, endOffset = 5, count' = 3\<rparr>,
                               \<lparr>startOffset = 7, endOffset = 9, count' = 1\<rparr>]
     = [\<lparr>start = 0, end' = 5\<rparr>, \<lparr>start = 7, end' = 9\<rparr>]"
proof -
  have eq: "convertToDisjointRanges [\<lparr>startOffset = 7, endOffset = 9, count' = 2\<rparr>,
                                 \<lparr>startOffset = 0, endOffset = 3, count' = 1\<rparr>,
                                 \<lparr>startOffset = 3, endOffset = 5, count' = 1\<rparr>]
      = [\<lparr>start = 0, end' = 5\<rparr>, \<lparr>start = 7, end' = 9\<rparr>]"
    by (simp add: convertToDisjointRanges_def array_sort_def comparePoints_def scanStep_def
      scanInit_def)
  then have h1: "map asDisjointRange [\<lparr>startOffset = 0, endOffset = 5, count' = 3\<rparr>,
                        \<lparr>startOffset = 7, endOffset = 9, count' = 1\<rparr>]
     = convertToDisjointRanges [\<lparr>startOffset = 7, endOffset = 9, count' = 2\<rparr>,
                                 \<lparr>startOffset = 0, endOffset = 3, count' = 1\<rparr>,
                                 \<lparr>startOffset = 3, endOffset = 5, count' = 1\<rparr>]"
    by (simp add: asDisjointRange_def)
  have h2: "\<forall>u\<in>set [\<lparr>startOffset = 0, endOffset = 5, count' = 3\<rparr>,
                      \<lparr>startOffset = 7, endOffset = 9, count' = 1\<rparr>]. 0 < count' u"
    by simp
  from convertToDisjointRanges_idempotent [OF h1 h2] eq h1 show ?thesis by simp
qed

subsection \<open>Independence of the input order\<close>

lemma sorted_wrt_unique:
  assumes "sorted_wrt le xs" and "sorted_wrt le ys" and "mset xs = mset ys"
    and "\<And>a b. a \<in> set xs \<Longrightarrow> b \<in> set xs \<Longrightarrow> le a b \<Longrightarrow> le b a \<Longrightarrow> a = b"
  shows "xs = ys"
  using assms
proof (induction xs arbitrary: ys)
  case Nil
  then show ?case by simp
next
  case (Cons x xs)
  from Cons.prems(3) obtain y ys' where ys: "ys = y # ys'"
    by (cases ys) auto
  have sets: "set (x # xs) = set ys"
    using Cons.prems(3) by (rule mset_eq_setD)
  have "x = y"
  proof (rule ccontr)
    assume neq: "x \<noteq> y"
    with sets ys have "x \<in> set ys'" and "y \<in> set xs" by auto
    with Cons.prems(1,2) ys have "le y x" and "le x y" by auto
    with Cons.prems(4) [of x y] \<open>y \<in> set xs\<close> neq show False by auto
  qed
  moreover from this Cons.prems(3) ys have "mset xs = mset ys'" by simp
  then have "xs = ys'"
    using Cons.prems(1,2,4) ys by (intro Cons.IH) auto
  ultimately show ?case using ys by simp
qed

lemma mset_makePoints:
  "mset (makePoints rs) =
     (\<Sum>r\<in>#mset rs. {#\<lparr>offset = startOffset r, type' = 0, range' = r\<rparr>,
                       \<lparr>offset = endOffset r, type' = 1, range' = r\<rparr>#})"
  by (induction rs) auto

lemma pointLe_both:
  assumes "pointLe a b" and "pointLe b a"
  shows "offset a = offset b" and "type' a = type' b"
    and "endOffset (range' a) - startOffset (range' a)
           = endOffset (range' b) - startOffset (range' b)"
proof -
  show o: "offset a = offset b"
    using assms pointLe_offset [of a b] pointLe_offset [of b a] by simp
  show t: "type' a = type' b"
  proof (rule ccontr)
    assume "type' a \<noteq> type' b"
    with o assms show False by (simp add: pointLe_def comparePoints_def)
  qed
  show "endOffset (range' a) - startOffset (range' a)
           = endOffset (range' b) - startOffset (range' b)"
  proof (cases "type' a = 0")
    case True
    with o t assms show ?thesis by (simp add: pointLe_def comparePoints_def Let_def)
  next
    case False
    with o t assms show ?thesis by (simp add: pointLe_def comparePoints_def Let_def)
  qed
qed

lemma in_makePoints:
  "a \<in> set (makePoints rs) \<Longrightarrow>
     range' a \<in> set rs \<and>
     (type' a = 0 \<and> offset a = startOffset (range' a)
      \<or> type' a = 1 \<and> offset a = endOffset (range' a))"
  by (induction rs) auto

lemma pointLe_antisym:
  assumes "sameSpanSameCount rs"
    and "a \<in> set (makePoints rs)" and "b \<in> set (makePoints rs)"
    and "pointLe a b" and "pointLe b a"
  shows "a = b"
proof -
  note eq = pointLe_both [OF assms(4,5)]
  note ma = in_makePoints [OF assms(2)] and mb = in_makePoints [OF assms(3)]
  have span: "startOffset (range' a) = startOffset (range' b)
              \<and> endOffset (range' a) = endOffset (range' b)"
  proof (cases "type' a = 0")
    case True
    with ma mb eq(2) have "offset a = startOffset (range' a)"
      and "offset b = startOffset (range' b)" by simp_all
    with eq(1,3) show ?thesis by simp
  next
    case False
    with ma mb eq(2) have "offset a = endOffset (range' a)"
      and "offset b = endOffset (range' b)" by simp_all
    with eq(1,3) show ?thesis by simp
  qed
  with assms(1) ma mb have "count' (range' a) = count' (range' b)"
    unfolding sameSpanSameCount_def by blast
  with span have "range' a = range' b" by (intro CoverageRange.equality) simp_all
  with eq(1,2) show ?thesis by (intro Point.equality) simp_all
qed

lemma array_sort_makePoints_perm:
  assumes "sameSpanSameCount rs" and "mset rs = mset rs'"
  shows "array_sort comparePoints (makePoints rs) = array_sort comparePoints (makePoints rs')"
proof (rule sorted_wrt_unique [where le = pointLe])
  show "sorted_wrt pointLe (array_sort comparePoints (makePoints rs))"
    and "sorted_wrt pointLe (array_sort comparePoints (makePoints rs'))"
    by (rule sorted_array_sort)+
  show "mset (array_sort comparePoints (makePoints rs))
          = mset (array_sort comparePoints (makePoints rs'))"
    using assms(2) by (simp add: mset_array_sort mset_makePoints)
  show "a = b" if "a \<in> set (array_sort comparePoints (makePoints rs))"
    "b \<in> set (array_sort comparePoints (makePoints rs))" "pointLe a b" "pointLe b a" for a b
    using pointLe_antisym [OF assms(1)] that by (simp add: set_array_sort)
qed

subsection \<open>Only the sign of a hit count matters\<close>

lemma hitOnly_simps [simp]:
  "startOffset (hitOnly r) = startOffset r" "endOffset (hitOnly r) = endOffset r"
  "0 < count' (hitOnly r) \<longleftrightarrow> 0 < count' r"
  by (simp_all add: hitOnly_def)

lemma hitOnlyPoint_simps [simp]:
  "offset (hitOnlyPoint q) = offset q" "type' (hitOnlyPoint q) = type' q"
  "range' (hitOnlyPoint q) = hitOnly (range' q)"
  by (simp_all add: hitOnlyPoint_def)

lemma makePoints_hitOnly: "makePoints (map hitOnly rs) = map hitOnlyPoint (makePoints rs)"
  by (induction rs) (simp_all add: hitOnlyPoint_def)

lemma comparePoints_hitOnly: "comparePoints (hitOnlyPoint a) (hitOnlyPoint b) = comparePoints a b"
  by (simp add: comparePoints_def)

lemma insertSorted_map:
  assumes "\<And>a b. c (f a) (f b) = c a b"
  shows "insertSorted c (f x) (map f xs) = map f (insertSorted c x xs)"
  by (induction xs) (simp_all add: assms)

lemma array_sort_map:
  assumes "\<And>a b. c (f a) (f b) = c a b"
  shows "array_sort c (map f xs) = map f (array_sort c xs)"
proof (induction xs)
  case Nil
  show ?case by (simp add: array_sort_def)
next
  case (Cons x xs)
  have "array_sort c (map f (x # xs)) = insertSorted c (f x) (array_sort c (map f xs))"
    by (simp add: array_sort_def)
  also have "\<dots> = insertSorted c (f x) (map f (array_sort c xs))"
    by (simp only: Cons.IH)
  also have "\<dots> = map f (insertSorted c x (array_sort c xs))"
    using assms by (rule insertSorted_map)
  finally show ?case by (simp add: array_sort_def)
qed

lemma scan_hitOnly:
  assumes "results s' = results s" and "lastOffset s' = lastOffset s"
    and "map (\<lambda>c. 0 < c) (hitCountStack s') = map (\<lambda>c. 0 < c) (hitCountStack s)"
  shows "results (foldl scanStep s' (map hitOnlyPoint qs)) = results (foldl scanStep s qs)"
  using assms
proof (induction qs arbitrary: s s')
  case Nil
  then show ?case by simp
next
  case (Cons q qs)
  from Cons.prems(3) have len: "hitCountStack s' = [] \<longleftrightarrow> hitCountStack s = []"
    by (metis map_is_Nil_conv)
  have top: "0 < last (hitCountStack s') \<longleftrightarrow> 0 < last (hitCountStack s)"
    if "hitCountStack s \<noteq> []"
  proof -
    from that len have "hitCountStack s' \<noteq> []" by simp
    then have "(0 < last (hitCountStack s')) = last (map (\<lambda>c. 0 < c) (hitCountStack s'))"
      by (simp add: last_map)
    also have "\<dots> = last (map (\<lambda>c. 0 < c) (hitCountStack s))"
      by (simp only: Cons.prems(3))
    also have "\<dots> = (0 < last (hitCountStack s))"
      using that by (simp add: last_map)
    finally show ?thesis .
  qed
  have r: "results (scanStep s' (hitOnlyPoint q)) = results (scanStep s q)"
    using Cons.prems(1,2) len top by (auto simp: scanStep_def Let_def)
  have l: "lastOffset (scanStep s' (hitOnlyPoint q)) = lastOffset (scanStep s q)"
    by simp
  have st: "map (\<lambda>c. 0 < c) (hitCountStack (scanStep s' (hitOnlyPoint q)))
      = map (\<lambda>c. 0 < c) (hitCountStack (scanStep s q))"
    using Cons.prems(3) by (simp add: scanStep_hitCountStack map_butlast)
  from Cons.IH [OF r l st] show ?case by simp
qed

lemma convert_hitOnly: "convertToDisjointRanges (map hitOnly rs) = convertToDisjointRanges rs"
proof -
  have "array_sort comparePoints (makePoints (map hitOnly rs))
      = map hitOnlyPoint (array_sort comparePoints (makePoints rs))"
    unfolding makePoints_hitOnly by (rule array_sort_map) (rule comparePoints_hitOnly)
  moreover have "results (foldl scanStep scanInit
                   (map hitOnlyPoint (array_sort comparePoints (makePoints rs))))
      = results (foldl scanStep scanInit (array_sort comparePoints (makePoints rs)))"
    by (rule scan_hitOnly) simp_all
  ultimately show ?thesis by (simp only: convertToDisjointRanges_def)
qed

lemma sameSpanSameCount_hitOnly:
  assumes "sameSpanSameHit rs"
  shows "sameSpanSameCount (map hitOnly rs)"
  unfolding sameSpanSameCount_def
proof (intro ballI impI)
  fix a b
  assume "a \<in> set (map hitOnly rs)" "b \<in> set (map hitOnly rs)"
  then obtain r r' where r: "r \<in> set rs" "a = hitOnly r" and r': "r' \<in> set rs" "b = hitOnly r'"
    by auto
  assume "startOffset a = startOffset b \<and> endOffset a = endOffset b"
  with r r' have "startOffset r = startOffset r' \<and> endOffset r = endOffset r'" by simp
  with assms r(1) r'(1) have "(0 < count' r) = (0 < count' r')"
    unfolding sameSpanSameHit_def by blast
  with r(2) r'(2) show "count' a = count' b" by (simp add: hitOnly_def)
qed

subsection \<open>Permutations of the input\<close>

lemma convert_permutation_same_count:
  "sameSpanSameCount rs \<Longrightarrow> mset rs = mset rs' \<Longrightarrow>
     convertToDisjointRanges rs = convertToDisjointRanges rs'"
  unfolding convertToDisjointRanges_def
  by (simp only: array_sort_makePoints_perm [of rs rs'])

text \<open>
  C3, amended. The comparator orders the points as stated (\<open>comparePoints_tie_break\<close>): by
  offset, ends before starts, longer starts and shorter ends first; the hit count takes no
  part in the order. So the result is the same for every permutation of the input provided
  that two ranges with the same start and the same end agree on whether they were hit.
\<close>

theorem convertToDisjointRanges_permutation:
  assumes "sameSpanSameHit rs" and "mset rs = mset rs'"
  shows "convertToDisjointRanges rs = convertToDisjointRanges rs'"
proof -
  have "convertToDisjointRanges (map hitOnly rs) = convertToDisjointRanges (map hitOnly rs')"
    using assms by (intro convert_permutation_same_count sameSpanSameCount_hitOnly) simp_all
  then show ?thesis by (simp only: convert_hitOnly)
qed

text \<open>
  A nested pair of ranges in both orders.
\<close>

theorem convertToDisjointRanges_permutation_witness:
  "sameSpanSameHit [\<lparr>startOffset = 2, endOffset = 5, count' = 0\<rparr>,
                    \<lparr>startOffset = 0, endOffset = 10, count' = 1\<rparr>]
   \<and> mset [\<lparr>startOffset = 2, endOffset = 5, count' = 0\<rparr>,
            \<lparr>startOffset = 0, endOffset = 10, count' = 1\<rparr>]
     = mset [\<lparr>startOffset = 0, endOffset = 10, count' = 1\<rparr>,
             \<lparr>startOffset = 2, endOffset = 5, count' = 0\<rparr>]
   \<and> convertToDisjointRanges [\<lparr>startOffset = 2, endOffset = 5, count' = 0\<rparr>,
                               \<lparr>startOffset = 0, endOffset = 10, count' = 1\<rparr>]
     = convertToDisjointRanges [\<lparr>startOffset = 0, endOffset = 10, count' = 1\<rparr>,
                                 \<lparr>startOffset = 2, endOffset = 5, count' = 0\<rparr>]"
proof -
  have h1: "sameSpanSameHit [\<lparr>startOffset = 2, endOffset = 5, count' = 0\<rparr>,
                      \<lparr>startOffset = 0, endOffset = 10, count' = 1\<rparr>]"
    by (simp add: sameSpanSameHit_def)
  have h2: "mset [\<lparr>startOffset = 2, endOffset = 5, count' = 0\<rparr>,
            \<lparr>startOffset = 0, endOffset = 10, count' = 1\<rparr>]
     = mset [\<lparr>startOffset = 0, endOffset = 10, count' = 1\<rparr>,
             \<lparr>startOffset = 2, endOffset = 5, count' = 0\<rparr>]"
    by simp
  from h1 h2 convertToDisjointRanges_permutation [OF h1 h2] show ?thesis by blast
qed

text \<open>
  C3 as stated fails for identical ranges of which one was hit and one was not: their
  points tie, the stable sort keeps the input order, and the range opened last sits on top
  of the stack. \<open>[(0,10,1),(0,10,0)]\<close> gives no range at all, its permutation
  \<open>[(0,10,0),(0,10,1)]\<close> gives \<open>[(0,10)]\<close>.
\<close>

theorem convertToDisjointRanges_order_counterexample:
  "mset [\<lparr>startOffset = 0, endOffset = 10, count' = 1\<rparr>,
         \<lparr>startOffset = 0, endOffset = 10, count' = 0\<rparr>]
     = mset [\<lparr>startOffset = 0, endOffset = 10, count' = 0\<rparr>,
             \<lparr>startOffset = 0, endOffset = 10, count' = 1\<rparr>]
   \<and> convertToDisjointRanges [\<lparr>startOffset = 0, endOffset = 10, count' = 1\<rparr>,
                               \<lparr>startOffset = 0, endOffset = 10, count' = 0\<rparr>] = []
   \<and> convertToDisjointRanges [\<lparr>startOffset = 0, endOffset = 10, count' = 0\<rparr>,
                               \<lparr>startOffset = 0, endOffset = 10, count' = 1\<rparr>]
       = [\<lparr>start = 0, end' = 10\<rparr>]"
  by (simp add: convertToDisjointRanges_def array_sort_def comparePoints_def scanStep_def
      scanInit_def)

subsection \<open>What the scan covers\<close>

lemma covers_Nil [simp]: "covers [] p = False"
  by (simp add: covers_def)

lemma covers_snoc: "covers (ds @ [d]) p = (covers ds p \<or> start d \<le> p \<and> p < end' d)"
  by (auto simp: covers_def)

lemma scanStep_covers:
  assumes "scanInv s"
  shows "covers (results (scanStep s q)) x =
           (covers (results s) x \<or>
            hitCountStack s \<noteq> [] \<and> last (hitCountStack s) > 0 \<and> lastOffset s \<le> x \<and> x < offset q)"
proof (cases "hitCountStack s \<noteq> [] \<and> lastOffset s < offset q \<and> last (hitCountStack s) > 0")
  case False
  then show ?thesis using scanStep_skip [OF False] by auto
next
  case True
  show ?thesis
  proof (cases "results s = [] \<or> end' (last (results s)) \<noteq> lastOffset s")
    case True
    with \<open>hitCountStack s \<noteq> [] \<and> lastOffset s < offset q \<and> last (hitCountStack s) > 0\<close>
    have "results (scanStep s q) = results s @ [\<lparr>start = lastOffset s, end' = offset q\<rparr>]"
      by (intro scanStep_push) simp_all
    with \<open>hitCountStack s \<noteq> [] \<and> lastOffset s < offset q \<and> last (hitCountStack s) > 0\<close>
    show ?thesis by (simp add: covers_snoc)
  next
    case False
    then obtain ys y where r: "results s = ys @ [y]" and e: "end' y = lastOffset s"
      by (cases "results s" rule: rev_cases) auto
    with True have "results (scanStep s q) = ys @ [y\<lparr>end' := offset q\<rparr>]"
      by (intro scanStep_extend) simp_all
    moreover from assms r have "start y < end' y"
      by (simp add: scanInv_def separated_snoc)
    ultimately show ?thesis using True r e by (auto simp: covers_snoc)
  qed
qed

lemma sum_list_makePoints:
  "sum_list (map w (makePoints rs)) =
     (\<Sum>r\<leftarrow>rs. w \<lparr>offset = startOffset r, type' = 0, range' = r\<rparr>
               + w \<lparr>offset = endOffset r, type' = 1, range' = r\<rparr>)"
  for w :: "Point \<Rightarrow> int"
  by (induction rs) simp_all

lemma sum_list_array_sort:
  "sum_list (map w (array_sort c xs)) = sum_list (map w xs)" for w :: "'a \<Rightarrow> int"
proof -
  have "mset (map w (array_sort c xs)) = mset (map w xs)"
    by (simp add: mset_array_sort)
  then show ?thesis by (metis sum_mset_sum_list)
qed

lemma sum_list_sorted_points:
  "sum_list (map w (array_sort comparePoints (makePoints rs))) =
     (\<Sum>r\<leftarrow>rs. w \<lparr>offset = startOffset r, type' = 0, range' = r\<rparr>
               + w \<lparr>offset = endOffset r, type' = 1, range' = r\<rparr>)"
  for w :: "Point \<Rightarrow> int"
  by (simp add: sum_list_array_sort sum_list_makePoints)

subsection \<open>The height of the stack\<close>

lemma sorted_offsets_append:
  assumes "sorted_wrt (\<lambda>a b. offset a \<le> offset b) (ds @ q # todo)"
  shows "\<forall>p\<in>set ds. offset p \<le> offset q" and "\<forall>p\<in>set todo. offset q \<le> offset p"
  using assms by (auto simp: sorted_wrt_append)

lemma balance_nonneg:
  assumes "wellFormed rs" and "array_sort comparePoints (makePoints rs) = ds @ todo"
  shows "0 \<le> sum_list (map pointSign ds)"
proof (cases todo)
  case Nil
  with assms(2) have "sum_list (map pointSign ds)
      = sum_list (map pointSign (array_sort comparePoints (makePoints rs)))" by simp
  also have "\<dots> = (\<Sum>r\<leftarrow>rs. 0)"
    unfolding sum_list_sorted_points by (simp add: pointSign_def)
  finally show ?thesis by simp
next
  case (Cons q rest)
  define w where "w p = (if type' p = 0 then (if offset p < offset q then 1 else 0)
                         else (if offset p \<le> offset q then - 1 else (0::int)))" for p :: Point
  have sorted: "sorted_wrt (\<lambda>a b. offset a \<le> offset b) (ds @ q # rest)"
    using sorted_offsets_array_sort [of "makePoints rs"] assms(2) Cons by simp
  have "(\<Sum>r\<leftarrow>rs. w \<lparr>offset = startOffset r, type' = 0, range' = r\<rparr>
               + w \<lparr>offset = endOffset r, type' = 1, range' = r\<rparr>) \<ge> 0"
    using assms(1) by (intro sum_list_nonneg) (auto simp: w_def wellFormed_def)
  then have "0 \<le> sum_list (map w (ds @ todo))"
    using sum_list_sorted_points [of w rs] assms(2) by simp
  also have "\<dots> = sum_list (map w ds) + sum_list (map w todo)" by simp
  also have "sum_list (map w todo) \<le> 0"
    using sorted_offsets_append(2) [OF sorted] Cons
    by (intro sum_list_nonpos) (auto simp: w_def)
  also have "sum_list (map w ds) \<le> sum_list (map pointSign ds)"
    using sorted_offsets_append(1) [OF sorted]
    by (intro sum_list_mono) (auto simp: w_def pointSign_def)
  finally show ?thesis by simp
qed

lemma balance_cut:
  assumes "wellFormed rs" and "array_sort comparePoints (makePoints rs) = ds @ q # rest"
    and "\<forall>p\<in>set ds. offset p \<le> x" and "x < offset q"
  shows "sum_list (map pointSign ds) = (\<Sum>r\<leftarrow>rs. if inRange r x then 1 else 0)"
proof -
  define w where "w p = (if offset p \<le> x then pointSign p else 0)" for p :: Point
  have sorted: "sorted_wrt (\<lambda>a b. offset a \<le> offset b) (ds @ q # rest)"
    using sorted_offsets_array_sort [of "makePoints rs"] assms(2) by simp
  have "sum_list (map pointSign ds) = sum_list (map w ds)"
    using assms(3) by (intro arg_cong [where f = sum_list] map_cong) (auto simp: w_def)
  also have "sum_list (map w (q # rest)) = (\<Sum>p\<leftarrow>q # rest. 0)"
    using sorted_offsets_append(2) [OF sorted] assms(4)
    by (intro arg_cong [where f = sum_list] map_cong) (auto simp: w_def)
  then have "sum_list (map w ds) = sum_list (map w (ds @ q # rest))" by simp
  also have "\<dots> = (\<Sum>r\<leftarrow>rs. w \<lparr>offset = startOffset r, type' = 0, range' = r\<rparr>
               + w \<lparr>offset = endOffset r, type' = 1, range' = r\<rparr>)"
    using sum_list_sorted_points [of w rs] assms(2) by simp
  also have "\<dots> = (\<Sum>r\<leftarrow>rs. if inRange r x then 1 else 0)"
    using assms(1)
    by (intro arg_cong [where f = sum_list] map_cong)
       (auto simp: w_def pointSign_def inRange_def wellFormed_def)
  finally show ?thesis .
qed

lemma count_pos_iff:
  "0 < (\<Sum>r\<leftarrow>rs. if P r then 1 else (0::int)) \<longleftrightarrow> (\<exists>r\<in>set rs. P r)"
proof (induction rs)
  case Nil
  then show ?case by simp
next
  case (Cons r rs)
  have "0 \<le> (\<Sum>r\<leftarrow>rs. if P r then 1 else (0::int))"
    by (intro sum_list_nonneg) auto
  with Cons show ?case by auto
qed

lemma sorted_offsets_last:
  assumes "sorted_wrt (\<lambda>a b. offset a \<le> offset b) ds" and "p \<in> set ds"
  shows "offset p \<le> offset (last ds)"
proof (cases ds rule: rev_cases)
  case Nil
  with assms(2) show ?thesis by simp
next
  case (snoc ys y)
  with assms show ?thesis by (auto simp: sorted_wrt_append)
qed

text \<open>
  The scan of a list of points sorted by offset, given what decides whether the segment
  before a point is recorded: \<open>hit x\<close> for the positions \<open>x\<close> of that segment.
\<close>

lemma scan_generic:
  assumes sorted: "sorted_wrt (\<lambda>a b. offset a \<le> offset b) qs"
    and cut: "\<And>ds d todo x. qs = ds @ d # todo \<Longrightarrow> ds \<noteq> [] \<Longrightarrow>
                offset (last ds) \<le> x \<Longrightarrow> x < offset d \<Longrightarrow>
                (hitCountStack (foldl scanStep scanInit ds) \<noteq> []
                 \<and> 0 < last (hitCountStack (foldl scanStep scanInit ds))) = hit x"
    and before: "\<And>x. \<forall>q\<in>set qs. x < offset q \<Longrightarrow> \<not> hit x"
  shows "qs = ds @ todo \<Longrightarrow>
     scanInv (foldl scanStep scanInit ds)
     \<and> (ds \<noteq> [] \<longrightarrow> lastOffset (foldl scanStep scanInit ds) = offset (last ds))
     \<and> (\<forall>x. covers (results (foldl scanStep scanInit ds)) x
              = (hit x \<and> (\<exists>q\<in>set ds. x < offset q)))"
proof (induction ds arbitrary: todo rule: rev_induct)
  case Nil
  show ?case by (simp add: scanInv_init) (simp add: scanInit_def)
next
  case (snoc d ds)
  let ?s = "foldl scanStep scanInit ds"
  from snoc.prems have split: "qs = ds @ d # todo" by simp
  note IH = snoc.IH [OF split]
  from IH have inv: "scanInv ?s" and lastO: "ds \<noteq> [] \<longrightarrow> lastOffset ?s = offset (last ds)"
    and cov: "\<And>x. covers (results ?s) x = (hit x \<and> (\<exists>q\<in>set ds. x < offset q))"
    by blast+
  have sorted': "sorted_wrt (\<lambda>a b. offset a \<le> offset b) (ds @ d # todo)"
    using sorted split by simp
  note before_d = sorted_offsets_append(1) [OF sorted']
    and after_d = sorted_offsets_append(2) [OF sorted']
  have empty: "results ?s = []" "hitCountStack ?s = []" if "ds = []"
    using that by (simp_all add: scanInit_def)
  have "results ?s \<noteq> [] \<longrightarrow> lastOffset ?s \<le> offset d"
    using empty(1) lastO before_d by (cases "ds = []") simp_all
  with inv have c1: "scanInv (scanStep ?s d)" by (rule scanStep_inv)
  have c2: "covers (results (scanStep ?s d)) x
              = (hit x \<and> (\<exists>q\<in>set (ds @ [d]). x < offset q))" for x
  proof -
    note step = scanStep_covers [OF inv, of d x]
    show ?thesis
    proof (cases "ds = []")
      case True
      have "\<not> hit x" if "x < offset d"
      proof (rule before)
        show "\<forall>q\<in>set qs. x < offset q"
          using that after_d split True by auto
      qed
      with step True empty show ?thesis by auto
    next
      case False
      with lastO have l: "lastOffset ?s = offset (last ds)" by simp
      from False have last_in: "last ds \<in> set ds" by simp
      with before_d have l_le: "offset (last ds) \<le> offset d" by blast
      have "sorted_wrt (\<lambda>a b. offset a \<le> offset b) ds"
        using sorted' by (simp add: sorted_wrt_append)
      then have ds_le: "\<forall>p\<in>set ds. offset p \<le> offset (last ds)"
        by (blast intro: sorted_offsets_last)
      consider "x < offset (last ds)" | "offset (last ds) \<le> x" "x < offset d" | "offset d \<le> x"
        by linarith
      then show ?thesis
      proof cases
        case 1
        then have "\<exists>q\<in>set ds. x < offset q" using last_in by blast
        moreover from this have "\<exists>q\<in>set (ds @ [d]). x < offset q" by auto
        ultimately show ?thesis using step l cov [of x] 1 by simp
      next
        case 2
        have none: "\<not> (\<exists>q\<in>set ds. x < offset q)" using ds_le 2(1) by fastforce
        have "(hitCountStack ?s \<noteq> [] \<and> 0 < last (hitCountStack ?s)) = hit x"
          using split False 2 by (rule cut)
        moreover have "\<not> covers (results ?s) x" using cov [of x] none by simp
        moreover have "\<exists>q\<in>set (ds @ [d]). x < offset q" using 2(2) by simp
        ultimately show ?thesis using step l 2 by auto
      next
        case 3
        with ds_le l_le have no: "\<not> (\<exists>q\<in>set (ds @ [d]). x < offset q)" by fastforce
        then have "\<not> (\<exists>q\<in>set ds. x < offset q)" by simp
        then have "\<not> covers (results ?s) x" using cov [of x] by simp
        with step no 3 show ?thesis by simp
      qed
    qed
  qed
  from c1 c2 show ?case by simp
qed

lemma covers_convert_generic:
  assumes cut: "\<And>ds d todo x. array_sort comparePoints (makePoints rs) = ds @ d # todo \<Longrightarrow>
                ds \<noteq> [] \<Longrightarrow> offset (last ds) \<le> x \<Longrightarrow> x < offset d \<Longrightarrow>
                (hitCountStack (foldl scanStep scanInit ds) \<noteq> []
                 \<and> 0 < last (hitCountStack (foldl scanStep scanInit ds))) = hit x"
    and inside: "\<And>x. hit x \<Longrightarrow> \<exists>r\<in>set rs. inRange r x"
  shows "covers (convertToDisjointRanges rs) x = hit x"
proof -
  let ?qs = "array_sort comparePoints (makePoints rs)"
  have in_qs: "\<lparr>offset = startOffset r, type' = 0, range' = r\<rparr> \<in> set ?qs"
    "\<lparr>offset = endOffset r, type' = 1, range' = r\<rparr> \<in> set ?qs" if "r \<in> set rs" for r
    using that by (auto simp: set_array_sort set_makePoints)
  have before: "\<not> hit y" if all: "\<forall>q\<in>set ?qs. y < offset q" for y
  proof
    assume "hit y"
    then obtain r where r: "r \<in> set rs" "inRange r y" using inside by blast
    from all in_qs(1) [OF r(1)] have "y < startOffset r" by fastforce
    with r(2) show False by (simp add: inRange_def)
  qed
  have "scanInv (foldl scanStep scanInit ?qs)
     \<and> (?qs \<noteq> [] \<longrightarrow> lastOffset (foldl scanStep scanInit ?qs) = offset (last ?qs))
     \<and> (\<forall>x. covers (results (foldl scanStep scanInit ?qs)) x
              = (hit x \<and> (\<exists>q\<in>set ?qs. x < offset q)))"
  proof (rule scan_generic [where qs = ?qs and todo = "[]"])
    show "sorted_wrt (\<lambda>a b. offset a \<le> offset b) ?qs" by (rule sorted_offsets_array_sort)
    show "?qs = ?qs @ []" by simp
  qed (erule (3) cut, erule before)
  then have "covers (results (foldl scanStep scanInit ?qs)) x
          = (hit x \<and> (\<exists>q\<in>set ?qs. x < offset q))"
    by blast
  moreover have "\<exists>q\<in>set ?qs. x < offset q" if "hit x"
  proof -
    from that obtain r where r: "r \<in> set rs" "inRange r x" using inside by blast
    then have "x < offset \<lparr>offset = endOffset r, type' = 1, range' = r\<rparr>"
      by (simp add: inRange_def)
    with in_qs(2) [OF r(1)] show ?thesis by blast
  qed
  ultimately show ?thesis unfolding convert_eq_results by blast
qed

subsection \<open>When every range was hit\<close>

lemma stack_positive:
  assumes "\<forall>q\<in>set ds. 0 < count' (range' q)"
  shows "\<forall>c\<in>set (hitCountStack (foldl scanStep scanInit ds)). 0 < c"
  using assms
proof (induction ds rule: rev_induct)
  case Nil
  then show ?case by (simp add: scanInit_def)
next
  case (snoc d ds)
  then show ?case by (auto simp: scanStep_hitCountStack dest: in_set_butlastD)
qed

lemma stack_height:
  assumes "wellFormed rs"
  shows "array_sort comparePoints (makePoints rs) = ds @ todo \<Longrightarrow>
     int (length (hitCountStack (foldl scanStep scanInit ds))) = sum_list (map pointSign ds)"
proof (induction ds arbitrary: todo rule: rev_induct)
  case Nil
  then show ?case by (simp add: scanInit_def)
next
  case (snoc d ds)
  from snoc.prems have split: "array_sort comparePoints (makePoints rs) = ds @ d # todo"
    by simp
  have "0 \<le> sum_list (map pointSign (ds @ [d]))"
    using balance_nonneg [OF assms, of "ds @ [d]" todo] split by simp
  then have nonneg: "0 \<le> sum_list (map pointSign ds) + pointSign d" by simp
  note len = snoc.IH [OF split]
  show ?case
  proof (cases "type' d = 0")
    case True
    then have "pointSign d = 1" by (simp add: pointSign_def)
    with True len show ?thesis by (simp add: scanStep_hitCountStack)
  next
    case False
    then have pd: "pointSign d = - 1" by (simp add: pointSign_def)
    with nonneg len have "1 \<le> int (length (hitCountStack (foldl scanStep scanInit ds)))"
      by simp
    with False len pd show ?thesis by (simp add: scanStep_hitCountStack)
  qed
qed

lemma covers_convert:
  assumes "allHit rs"
  shows "covers (convertToDisjointRanges rs) x = (\<exists>r\<in>set rs. inRange r x)"
proof (rule covers_convert_generic)
  fix ds d todo y
  assume split: "array_sort comparePoints (makePoints rs) = ds @ d # todo"
    and "ds \<noteq> []" and lo: "offset (last ds) \<le> y" and hi: "y < offset d"
  let ?s = "foldl scanStep scanInit ds"
  from assms have wf: "wellFormed rs" by (simp add: allHit_def)
  have sorted: "sorted_wrt (\<lambda>a b. offset a \<le> offset b) (ds @ d # todo)"
    using sorted_offsets_array_sort [of "makePoints rs"] split by simp
  then have "sorted_wrt (\<lambda>a b. offset a \<le> offset b) ds"
    by (simp add: sorted_wrt_append)
  then have ds_le: "\<forall>p\<in>set ds. offset p \<le> y"
    using lo by (fastforce dest: sorted_offsets_last)
  have "set ds \<subseteq> set (makePoints rs)"
    using split set_array_sort [of comparePoints "makePoints rs"] by auto
  then have "\<forall>q\<in>set ds. 0 < count' (range' q)"
    using assms by (auto simp: allHit_def dest!: in_makePoints)
  then have top: "0 < last (hitCountStack ?s)" if "hitCountStack ?s \<noteq> []"
    using stack_positive [of ds] that by simp
  have "sum_list (map pointSign ds) = (\<Sum>r\<leftarrow>rs. if inRange r y then 1 else 0)"
    using ds_le hi by (intro balance_cut [OF wf split])
  then have "0 < sum_list (map pointSign ds) \<longleftrightarrow> (\<exists>r\<in>set rs. inRange r y)"
    by (simp only: count_pos_iff)
  moreover have "hitCountStack ?s \<noteq> [] \<longleftrightarrow> 0 < int (length (hitCountStack ?s))"
    by simp
  then have "hitCountStack ?s \<noteq> [] \<longleftrightarrow> 0 < sum_list (map pointSign ds)"
    unfolding stack_height [OF wf split] .
  ultimately show "(hitCountStack ?s \<noteq> [] \<and> 0 < last (hitCountStack ?s))
                     = (\<exists>r\<in>set rs. inRange r y)"
    using top by blast
qed simp

subsection \<open>When the ranges are properly nested\<close>

lemma point_simps [simp]:
  "offset (openPoint r) = startOffset r" "type' (openPoint r) = 0" "range' (openPoint r) = r"
  "offset (closePoint r) = endOffset r" "type' (closePoint r) = 1" "range' (closePoint r) = r"
  by (simp_all add: openPoint_def closePoint_def)

lemma point_eq_iff [simp]:
  "openPoint a = openPoint b \<longleftrightarrow> a = b" "closePoint a = closePoint b \<longleftrightarrow> a = b"
  "openPoint a \<noteq> closePoint b" "closePoint a \<noteq> openPoint b"
  by (auto simp: openPoint_def closePoint_def)

lemma makePoints_Cons: "makePoints (r # rs) = openPoint r # closePoint r # makePoints rs"
  by (simp add: openPoint_def closePoint_def)

lemma point_cases:
  assumes "a \<in> set (makePoints rs)"
  obtains "type' a = 0" "a = openPoint (range' a)" "range' a \<in> set rs"
  | "type' a \<noteq> 0" "a = closePoint (range' a)" "range' a \<in> set rs"
proof -
  from in_makePoints [OF assms]
  consider "range' a \<in> set rs" "type' a = 0" "offset a = startOffset (range' a)"
    | "range' a \<in> set rs" "type' a = 1" "offset a = endOffset (range' a)"
    by blast
  then show ?thesis
  proof cases
    case 1
    then have "a = openPoint (range' a)" by (intro Point.equality) simp_all
    with 1 that(1) show ?thesis by blast
  next
    case 2
    then have "a = closePoint (range' a)" by (intro Point.equality) simp_all
    with 2 that(2) show ?thesis by simp
  qed
qed

lemma count_makePoints:
  "count (mset (makePoints rs)) (openPoint r) = count (mset rs) r"
  "count (mset (makePoints rs)) (closePoint r) = count (mset rs) r"
  by (induction rs) (simp_all only: makePoints.simps(1) makePoints_Cons mset.simps
      count_add_mset count_empty point_eq_iff if_False if_True split: if_splits)

lemma count_sorted_points:
  "count (mset (array_sort comparePoints (makePoints rs))) (openPoint r) = count (mset rs) r"
  "count (mset (array_sort comparePoints (makePoints rs))) (closePoint r) = count (mset rs) r"
  by (simp_all add: mset_array_sort count_makePoints)

lemma rangeStack_snoc:
  "rangeStack (ds @ [d]) =
     (if type' d = 0 then rangeStack ds @ [range' d] else butlast (rangeStack ds))"
  by (simp add: rangeStack_def)

lemma hitCountStack_rangeStack:
  "hitCountStack (foldl scanStep scanInit ds) = map count' (rangeStack ds)"
proof (induction ds rule: rev_induct)
  case Nil
  show ?case by (simp add: scanInit_def rangeStack_def)
next
  case (snoc d ds)
  then show ?case by (simp add: scanStep_hitCountStack rangeStack_snoc map_butlast)
qed

text \<open>
  What the invariant says at a point \<open>d\<close> of the sorted list: a range on the stack was
  opened and is not closed yet, and a range all of whose starts were seen and one of whose
  ends is still to come is on the stack.
\<close>

lemma on_stack:
  assumes split: "array_sort comparePoints (makePoints rs) = ds @ d # todo"
    and inv: "stackInv ds st" and t: "t \<in> set st"
  shows "openPoint t \<in> set ds" and "closePoint t \<in> set (d # todo)" and "t \<in> set rs"
proof -
  from inv have k: "count (mset st) t + count (mset ds) (closePoint t)
      = count (mset ds) (openPoint t)"
    by (simp add: stackInv_def)
  from t have pos: "0 < count (mset st) t" by simp
  with k have "0 < count (mset ds) (openPoint t)" by linarith
  then show o: "openPoint t \<in> set ds" by (simp add: count_greater_zero_iff del: count_mset)
  then have "openPoint t \<in> set (makePoints rs)"
    using split set_array_sort [of comparePoints "makePoints rs"] by auto
  from in_makePoints [OF this] show "t \<in> set rs" by simp
  have "count (mset (ds @ d # todo)) (openPoint t) = count (mset (ds @ d # todo)) (closePoint t)"
    using count_sorted_points [of rs t] split by simp
  then have "count (mset ds) (openPoint t) + count (mset (d # todo)) (openPoint t)
      = count (mset ds) (closePoint t) + count (mset (d # todo)) (closePoint t)"
    by (simp only: mset_append count_union)
  with k pos have "0 < count (mset (d # todo)) (closePoint t)" by linarith
  then show "closePoint t \<in> set (d # todo)"
    by (simp only: count_greater_zero_iff set_mset_mset)
qed

lemma must_be_on_stack:
  assumes split: "array_sort comparePoints (makePoints rs) = ds @ d # todo"
    and inv: "stackInv ds st" and r: "r \<in> set rs"
    and o: "openPoint r \<notin> set (d # todo)" and c: "closePoint r \<in> set (d # todo)"
  shows "r \<in> set st"
proof -
  from inv have k: "count (mset st) r + count (mset ds) (closePoint r)
      = count (mset ds) (openPoint r)"
    by (simp add: stackInv_def)
  have "count (mset (ds @ d # todo)) (openPoint r) = count (mset (ds @ d # todo)) (closePoint r)"
    using count_sorted_points [of rs r] split by simp
  then have "count (mset ds) (openPoint r) + count (mset (d # todo)) (openPoint r)
      = count (mset ds) (closePoint r) + count (mset (d # todo)) (closePoint r)"
    by (simp only: mset_append count_union)
  moreover from o have "count (mset (d # todo)) (openPoint r) = 0"
    by (simp only: count_eq_zero_iff set_mset_mset not_False_eq_True)
  moreover from c have "0 < count (mset (d # todo)) (closePoint r)"
    by (simp only: count_greater_zero_iff set_mset_mset)
  ultimately have "0 < count (mset st) r" using k by linarith
  then show ?thesis by (simp only: count_greater_zero_iff set_mset_mset)
qed

lemma sorted_points_append:
  assumes "array_sort comparePoints (makePoints rs) = ds @ d # todo"
  shows "\<forall>p\<in>set ds. pointLe p d" and "\<forall>p\<in>set todo. pointLe d p"
    and "\<forall>p\<in>set ds. offset p \<le> offset d" and "\<forall>p\<in>set todo. offset d \<le> offset p"
proof -
  have "sorted_wrt pointLe (ds @ d # todo)"
    using sorted_array_sort [of "makePoints rs"] assms by simp
  then show "\<forall>p\<in>set ds. pointLe p d" and "\<forall>p\<in>set todo. pointLe d p"
    by (auto simp: sorted_wrt_append)
  then show "\<forall>p\<in>set ds. offset p \<le> offset d" and "\<forall>p\<in>set todo. offset d \<le> offset p"
    by (auto dest: pointLe_offset)
qed

lemma nested_top:
  assumes "sorted_wrt (\<lambda>a b. nestedIn b a) st" and "r \<in> set st"
  shows "nestedIn (last st) r"
proof (cases st rule: rev_cases)
  case Nil
  with assms(2) show ?thesis by simp
next
  case (snoc ys y)
  with assms show ?thesis by (auto simp: sorted_wrt_append nestedIn_def)
qed

lemma same_span:
  assumes "sameSpanSameCount rs" and "a \<in> set rs" and "b \<in> set rs"
    and "startOffset a = startOffset b" and "endOffset a = endOffset b"
  shows "a = b"
proof -
  from assms have "count' a = count' b" unfolding sameSpanSameCount_def by blast
  with assms(4,5) show ?thesis by (intro CoverageRange.equality) simp_all
qed

text \<open>An end point finds its own range on top of the stack.\<close>

lemma closing_top:
  assumes nested: "nestedSameCount rs"
    and split: "array_sort comparePoints (makePoints rs) = ds @ d # todo"
    and inv: "stackInv ds st" and d: "type' d \<noteq> 0"
  shows "st \<noteq> [] \<and> last st = range' d"
proof -
  let ?r = "range' d"
  from nested have wf: "wellFormed rs" and same: "sameSpanSameCount rs"
    by (simp_all add: nestedSameCount_def)
  have "d \<in> set (makePoints rs)"
    using split set_array_sort [of comparePoints "makePoints rs"] by auto
  then have d_eq: "d = closePoint ?r" and r: "?r \<in> set rs"
    using d by (auto elim: point_cases)
  from r wf have lt: "startOffset ?r < endOffset ?r" by (simp add: wellFormed_def)
  have "offset d \<le> offset p" if "p \<in> set (d # todo)" for p
    using that sorted_points_append(4) [OF split] by auto
  from this [of "openPoint ?r"] lt d_eq
  have "openPoint ?r \<notin> set (d # todo)" by (metis not_less point_simps(1,4))
  moreover have "closePoint ?r \<in> set (d # todo)" using d_eq by simp
  ultimately have on: "?r \<in> set st" using must_be_on_stack [OF split inv r] by blast
  then have ne: "st \<noteq> []" by auto
  let ?t = "last st"
  from inv have chain: "sorted_wrt (\<lambda>a b. nestedIn b a) st" by (simp add: stackInv_def)
  from nested_top [OF chain on] have tr: "nestedIn ?t ?r" .
  from ne have t_on: "?t \<in> set st" by simp
  note t = on_stack [OF split inv t_on]
  have "?t = ?r"
  proof (cases "closePoint ?t = d")
    case True
    then have "range' (closePoint ?t) = range' d" by simp
    then show ?thesis by simp
  next
    case False
    with t(2) have "closePoint ?t \<in> set todo" by simp
    with sorted_points_append(2) [OF split] have "pointLe d (closePoint ?t)" by blast
    then have le: "comparePoints (closePoint ?r) (closePoint ?t) \<le> 0"
      using d_eq by (simp add: pointLe_def)
    from tr have n: "startOffset ?r \<le> startOffset ?t" "endOffset ?t \<le> endOffset ?r"
      by (simp_all add: nestedIn_def)
    from le n(2) have e: "endOffset ?r = endOffset ?t"
      by (simp add: comparePoints_def split: if_splits)
    with le have "endOffset ?r - startOffset ?r \<le> endOffset ?t - startOffset ?t"
      by (simp add: comparePoints_def)
    with e n(1) have "startOffset ?t = startOffset ?r" by simp
    with e show ?thesis using same_span [OF same t(3) r] by simp
  qed
  with ne show ?thesis by simp
qed

text \<open>A start point opens a range that lies inside every range on the stack.\<close>

lemma opening_nested:
  assumes nested: "nestedSameCount rs"
    and split: "array_sort comparePoints (makePoints rs) = ds @ d # todo"
    and inv: "stackInv ds st" and d: "type' d = 0" and t: "t \<in> set st"
  shows "nestedIn (range' d) t"
proof -
  let ?r = "range' d"
  from nested have wf: "wellFormed rs" by (simp add: nestedSameCount_def)
  have "d \<in> set (makePoints rs)"
    using split set_array_sort [of comparePoints "makePoints rs"] by auto
  then have d_eq: "d = openPoint ?r" and r: "?r \<in> set rs"
    using d by (auto elim: point_cases)
  note on = on_stack [OF split inv t]
  from r wf have lt: "startOffset ?r < endOffset ?r" by (simp add: wellFormed_def)
  from on(1) sorted_points_append(1) [OF split] have "pointLe (openPoint t) d" by blast
  then have le1: "comparePoints (openPoint t) (openPoint ?r) \<le> 0"
    using d_eq by (simp add: pointLe_def)
  have "closePoint t \<noteq> d" using d_eq by (metis point_eq_iff(4))
  with on(2) have "closePoint t \<in> set todo" by simp
  with sorted_points_append(2) [OF split] have "pointLe d (closePoint t)" by blast
  then have le2: "comparePoints (openPoint ?r) (closePoint t) \<le> 0"
    using d_eq by (simp add: pointLe_def)
  from le1 have s: "startOffset t \<le> startOffset ?r"
    by (simp add: comparePoints_def split: if_splits)
  from le1 have len: "startOffset t = startOffset ?r \<Longrightarrow>
      endOffset ?r - startOffset ?r \<le> endOffset t - startOffset t"
    by (simp add: comparePoints_def)
  from le2 have e: "startOffset ?r < endOffset t"
    by (simp add: comparePoints_def split: if_splits)
  from nested r on(3)
  consider "endOffset ?r \<le> startOffset t" | "endOffset t \<le> startOffset ?r"
    | "nestedIn ?r t" | "nestedIn t ?r"
    unfolding nestedSameCount_def by blast
  then show ?thesis
  proof cases
    case 1
    with s lt show ?thesis by simp
  next
    case 2
    with e show ?thesis by simp
  next
    case 3
    then show ?thesis .
  next
    case 4
    with s have "startOffset t = startOffset ?r" by (simp add: nestedIn_def)
    with len 4 show ?thesis by (simp add: nestedIn_def)
  qed
qed

lemma stackInv_step:
  assumes nested: "nestedSameCount rs"
    and split: "array_sort comparePoints (makePoints rs) = ds @ d # todo"
    and inv: "stackInv ds (rangeStack ds)"
  shows "stackInv (ds @ [d]) (rangeStack (ds @ [d]))"
proof (cases "type' d = 0")
  case True
  have "d \<in> set (makePoints rs)"
    using split set_array_sort [of comparePoints "makePoints rs"] by auto
  then have d_eq: "d = openPoint (range' d)" using True by (auto elim: point_cases)
  have k: "count (mset (rangeStack ds @ [range' d])) r + count (mset (ds @ [d])) (closePoint r)
      = count (mset (ds @ [d])) (openPoint r)" for r
  proof -
    from inv have "count (mset (rangeStack ds)) r + count (mset ds) (closePoint r)
        = count (mset ds) (openPoint r)"
      by (simp add: stackInv_def)
    moreover have "d = openPoint r \<longleftrightarrow> range' d = r"
      using d_eq by (metis point_eq_iff(1))
    moreover have "d \<noteq> closePoint r" using d_eq by (metis point_eq_iff(3))
    ultimately show ?thesis by simp
  qed
  have "\<forall>t\<in>set (rangeStack ds). nestedIn (range' d) t"
    using opening_nested [OF nested split inv True] by blast
  moreover from inv have "sorted_wrt (\<lambda>a b. nestedIn b a) (rangeStack ds)"
    by (simp add: stackInv_def)
  ultimately have "sorted_wrt (\<lambda>a b. nestedIn b a) (rangeStack ds @ [range' d])"
    by (simp add: sorted_wrt_append)
  with k True show ?thesis unfolding stackInv_def rangeStack_snoc by simp
next
  case False
  have "d \<in> set (makePoints rs)"
    using split set_array_sort [of comparePoints "makePoints rs"] by auto
  then have d_eq: "d = closePoint (range' d)" using False by (auto elim: point_cases)
  from closing_top [OF nested split inv False]
  obtain ys where st: "rangeStack ds = ys @ [range' d]"
    by (metis append_butlast_last_id)
  have k: "count (mset ys) r + count (mset (ds @ [d])) (closePoint r)
      = count (mset (ds @ [d])) (openPoint r)" for r
  proof -
    from inv have "count (mset (ys @ [range' d])) r + count (mset ds) (closePoint r)
        = count (mset ds) (openPoint r)"
      unfolding st by (simp add: stackInv_def)
    moreover have "d = closePoint r \<longleftrightarrow> range' d = r"
      using d_eq by (metis point_eq_iff(2))
    moreover have "d \<noteq> openPoint r" using d_eq by (metis point_eq_iff(4))
    ultimately show ?thesis by (auto split: if_splits)
  qed
  from inv have "sorted_wrt (\<lambda>a b. nestedIn b a) ys"
    unfolding st by (simp add: stackInv_def sorted_wrt_append)
  with k False st show ?thesis unfolding stackInv_def rangeStack_snoc by simp
qed

lemma stackInv_prefix:
  assumes "nestedSameCount rs"
  shows "array_sort comparePoints (makePoints rs) = ds @ todo \<Longrightarrow> stackInv ds (rangeStack ds)"
proof (induction ds arbitrary: todo rule: rev_induct)
  case Nil
  show ?case by (simp add: stackInv_def rangeStack_def)
next
  case (snoc d ds)
  from snoc.prems have split: "array_sort comparePoints (makePoints rs) = ds @ d # todo"
    by simp
  from stackInv_step [OF assms split snoc.IH [OF split]] show ?case .
qed

lemma covers_convert_nested_same_count:
  assumes nested: "nestedSameCount rs"
  shows "covers (convertToDisjointRanges rs) x = innermostHit rs x"
proof (rule covers_convert_generic)
  fix y assume "innermostHit rs y"
  then show "\<exists>r\<in>set rs. inRange r y" unfolding innermostHit_def by blast
next
  fix ds d todo y
  assume split: "array_sort comparePoints (makePoints rs) = ds @ d # todo"
    and ne: "ds \<noteq> []" and lo: "offset (last ds) \<le> y" and hi: "y < offset d"
  let ?st = "rangeStack ds"
  from nested have same: "sameSpanSameCount rs" by (simp add: nestedSameCount_def)
  have inv: "stackInv ds ?st" using stackInv_prefix [OF nested split] .
  then have chain: "sorted_wrt (\<lambda>a b. nestedIn b a) ?st" by (simp add: stackInv_def)
  have "sorted_wrt (\<lambda>a b. offset a \<le> offset b) (ds @ d # todo)"
    using sorted_offsets_array_sort [of "makePoints rs"] split by simp
  then have "sorted_wrt (\<lambda>a b. offset a \<le> offset b) ds"
    by (simp add: sorted_wrt_append)
  then have ds_le: "offset p \<le> y" if "p \<in> set ds" for p
    using lo sorted_offsets_last [OF _ that] by fastforce
  have todo_gt: "y < offset p" if "p \<in> set (d # todo)" for p
    using that hi sorted_points_append(4) [OF split] by fastforce
  have qs: "set (makePoints rs) = set ds \<union> set (d # todo)"
    using split set_array_sort [of comparePoints "makePoints rs"] by auto
  \<comment> \<open>the ranges on the stack are those that contain the position\<close>
  have contains: "inRange t y \<and> t \<in> set rs" if "t \<in> set ?st" for t
  proof -
    note on = on_stack [OF split inv that]
    from ds_le [OF on(1)] todo_gt [OF on(2)] on(3) show ?thesis by (simp add: inRange_def)
  qed
  have on: "r \<in> set ?st" if r: "r \<in> set rs" "inRange r y" for r
  proof (rule must_be_on_stack [OF split inv r(1)])
    from r(2) have "\<not> y < offset (openPoint r)" by (simp add: inRange_def)
    with todo_gt show "openPoint r \<notin> set (d # todo)" by blast
    from r(2) have "\<not> offset (closePoint r) \<le> y" by (simp add: inRange_def)
    with ds_le have "closePoint r \<notin> set ds" by blast
    moreover have "closePoint r \<in> set (makePoints rs)"
      using r(1) by (auto simp: set_makePoints closePoint_def)
    ultimately show "closePoint r \<in> set (d # todo)" using qs by blast
  qed
  have top: "hitCountStack (foldl scanStep scanInit ds) \<noteq> [] \<longleftrightarrow> ?st \<noteq> []"
    "?st \<noteq> [] \<Longrightarrow> last (hitCountStack (foldl scanStep scanInit ds)) = count' (last ?st)"
    by (simp_all add: hitCountStack_rangeStack last_map)
  show "(hitCountStack (foldl scanStep scanInit ds) \<noteq> []
           \<and> 0 < last (hitCountStack (foldl scanStep scanInit ds))) = innermostHit rs y"
  proof
    assume "hitCountStack (foldl scanStep scanInit ds) \<noteq> []
           \<and> 0 < last (hitCountStack (foldl scanStep scanInit ds))"
    with top have st: "?st \<noteq> []" and hit: "0 < count' (last ?st)" by simp_all
    from st have "last ?st \<in> set ?st" by simp
    from contains [OF this] have "inRange (last ?st) y" "last ?st \<in> set rs" by simp_all
    moreover have "nestedIn (last ?st) r" if "r \<in> set rs" "inRange r y" for r
      using nested_top [OF chain on [OF that]] .
    ultimately show "innermostHit rs y" using hit unfolding innermostHit_def by blast
  next
    assume "innermostHit rs y"
    then obtain r where r: "r \<in> set rs" "inRange r y" "0 < count' r"
      and inner: "\<And>r'. r' \<in> set rs \<Longrightarrow> inRange r' y \<Longrightarrow> nestedIn r r'"
      unfolding innermostHit_def by blast
    from on [OF r(1,2)] have r_on: "r \<in> set ?st" .
    then have st: "?st \<noteq> []" by auto
    then have "last ?st \<in> set ?st" by simp
    from contains [OF this] have t: "inRange (last ?st) y" "last ?st \<in> set rs" by simp_all
    from inner [OF t(2,1)] nested_top [OF chain r_on]
    have "startOffset (last ?st) = startOffset r" "endOffset (last ?st) = endOffset r"
      by (simp_all add: nestedIn_def)
    from same_span [OF same t(2) r(1) this] r(3) have "0 < count' (last ?st)" by simp
    with st top show "hitCountStack (foldl scanStep scanInit ds) \<noteq> []
           \<and> 0 < last (hitCountStack (foldl scanStep scanInit ds))"
      by simp
  qed
qed

subsection \<open>The positions the result covers\<close>

lemma nestedSameCount_hitOnly:
  assumes "properlyNested rs"
  shows "nestedSameCount (map hitOnly rs)"
proof -
  from assms have "sameSpanSameCount (map hitOnly rs)"
    by (simp add: properlyNested_def sameSpanSameCount_hitOnly)
  moreover from assms have "wellFormed (map hitOnly rs)"
    by (simp add: properlyNested_def wellFormed_def)
  moreover from assms
  have "\<forall>r\<in>set (map hitOnly rs). \<forall>r'\<in>set (map hitOnly rs).
         endOffset r \<le> startOffset r' \<or> endOffset r' \<le> startOffset r
         \<or> nestedIn r r' \<or> nestedIn r' r"
    by (simp add: properlyNested_def nestedIn_def)
  ultimately show ?thesis unfolding nestedSameCount_def by blast
qed

lemma innermostHit_hitOnly: "innermostHit (map hitOnly rs) p = innermostHit rs p"
  by (simp add: innermostHit_def inRange_def nestedIn_def)

lemma covers_convert_nested:
  assumes "properlyNested rs"
  shows "covers (convertToDisjointRanges rs) p = innermostHit rs p"
  using covers_convert_nested_same_count [OF nestedSameCount_hitOnly [OF assms], of p]
  by (simp only: convert_hitOnly innermostHit_hitOnly)

text \<open>
  C1, amended. For well-formed usage ranges (\<open>startOffset < endOffset\<close>) and every
  position \<open>p\<close>: when every range has a positive hit count, \<open>p\<close> lies in some result range
  if and only if some input range (with positive hit count) contains \<open>p\<close>; when the ranges
  are properly nested (any two are disjoint or one lies inside the other, and ranges with
  the same start and end agree on whether they were hit), \<open>p\<close> lies in some result range
  if and only if the innermost input range that contains \<open>p\<close> has a positive hit count.
\<close>

theorem convertToDisjointRanges_coverage:
  "(allHit rs \<longrightarrow> covers (convertToDisjointRanges rs) p = coveredByHit rs p)
   \<and> (properlyNested rs' \<longrightarrow> covers (convertToDisjointRanges rs') p' = innermostHit rs' p')"
proof (intro conjI impI)
  assume "allHit rs"
  then show "covers (convertToDisjointRanges rs) p = coveredByHit rs p"
    using covers_convert [of rs p] by (auto simp: coveredByHit_def allHit_def)
next
  assume "properlyNested rs'"
  then show "covers (convertToDisjointRanges rs') p' = innermostHit rs' p'"
    by (rule covers_convert_nested)
qed

text \<open>
  Two overlapping hit ranges, and a range that was not hit inside one that was.
\<close>

theorem convertToDisjointRanges_coverage_witness:
  "allHit [\<lparr>startOffset = 0, endOffset = 5, count' = 2\<rparr>,
           \<lparr>startOffset = 3, endOffset = 8, count' = 1\<rparr>]
   \<and> properlyNested [\<lparr>startOffset = 0, endOffset = 10, count' = 1\<rparr>,
                     \<lparr>startOffset = 2, endOffset = 5, count' = 0\<rparr>]
   \<and> covers (convertToDisjointRanges [\<lparr>startOffset = 0, endOffset = 5, count' = 2\<rparr>,
                                       \<lparr>startOffset = 3, endOffset = 8, count' = 1\<rparr>]) 6
   \<and> coveredByHit [\<lparr>startOffset = 0, endOffset = 5, count' = 2\<rparr>,
                   \<lparr>startOffset = 3, endOffset = 8, count' = 1\<rparr>] 6
   \<and> covers (convertToDisjointRanges [\<lparr>startOffset = 0, endOffset = 10, count' = 1\<rparr>,
                                       \<lparr>startOffset = 2, endOffset = 5, count' = 0\<rparr>]) 7
   \<and> innermostHit [\<lparr>startOffset = 0, endOffset = 10, count' = 1\<rparr>,
                   \<lparr>startOffset = 2, endOffset = 5, count' = 0\<rparr>] 7"
proof -
  have h1: "allHit [\<lparr>startOffset = 0, endOffset = 5, count' = 2\<rparr>,
           \<lparr>startOffset = 3, endOffset = 8, count' = 1\<rparr>]"
    by (simp add: allHit_def wellFormed_def)
  have h2: "properlyNested [\<lparr>startOffset = 0, endOffset = 10, count' = 1\<rparr>,
                     \<lparr>startOffset = 2, endOffset = 5, count' = 0\<rparr>]"
    by (simp add: properlyNested_def wellFormed_def sameSpanSameHit_def nestedIn_def)
  have c1: "coveredByHit [\<lparr>startOffset = 0, endOffset = 5, count' = 2\<rparr>,
                   \<lparr>startOffset = 3, endOffset = 8, count' = 1\<rparr>] 6"
    by (simp add: coveredByHit_def inRange_def)
  have c2: "innermostHit [\<lparr>startOffset = 0, endOffset = 10, count' = 1\<rparr>,
                   \<lparr>startOffset = 2, endOffset = 5, count' = 0\<rparr>] 7"
    by (simp add: innermostHit_def inRange_def nestedIn_def)
  note w = convertToDisjointRanges_coverage [where
      rs = "[\<lparr>startOffset = 0, endOffset = 5, count' = 2\<rparr>,
             \<lparr>startOffset = 3, endOffset = 8, count' = 1\<rparr>]" and p = 6
      and rs' = "[\<lparr>startOffset = 0, endOffset = 10, count' = 1\<rparr>,
                  \<lparr>startOffset = 2, endOffset = 5, count' = 0\<rparr>]" and p' = 7]
  from w h1 c1 have "covers (convertToDisjointRanges
      [\<lparr>startOffset = 0, endOffset = 5, count' = 2\<rparr>,
       \<lparr>startOffset = 3, endOffset = 8, count' = 1\<rparr>]) 6" by blast
  moreover from w h2 c2 have "covers (convertToDisjointRanges
      [\<lparr>startOffset = 0, endOffset = 10, count' = 1\<rparr>,
       \<lparr>startOffset = 2, endOffset = 5, count' = 0\<rparr>]) 7" by blast
  ultimately show ?thesis using h1 h2 c1 c2 by blast
qed

text \<open>
  C1 as stated fails when a range that was not hit is nested inside one that was: the
  scan looks at the top of the stack only, so the inner range hides the outer one.
  For \<open>[(0,10,1),(2,5,0)]\<close> position 3 lies in the hit range \<open>(0,10)\<close> and in no range of
  the result \<open>[(0,2),(5,10)]\<close>.
\<close>

theorem convertToDisjointRanges_coverage_counterexample:
  "coveredByHit [\<lparr>startOffset = 0, endOffset = 10, count' = 1\<rparr>,
                 \<lparr>startOffset = 2, endOffset = 5, count' = 0\<rparr>] 3
   \<and> \<not> covers (convertToDisjointRanges [\<lparr>startOffset = 0, endOffset = 10, count' = 1\<rparr>,
                                         \<lparr>startOffset = 2, endOffset = 5, count' = 0\<rparr>]) 3
   \<and> convertToDisjointRanges [\<lparr>startOffset = 0, endOffset = 10, count' = 1\<rparr>,
                               \<lparr>startOffset = 2, endOffset = 5, count' = 0\<rparr>]
       = [\<lparr>start = 0, end' = 2\<rparr>, \<lparr>start = 5, end' = 10\<rparr>]"
proof -
  have "convertToDisjointRanges [\<lparr>startOffset = 0, endOffset = 10, count' = 1\<rparr>,
                               \<lparr>startOffset = 2, endOffset = 5, count' = 0\<rparr>]
       = [\<lparr>start = 0, end' = 2\<rparr>, \<lparr>start = 5, end' = 10\<rparr>]"
    by (simp add: convertToDisjointRanges_def array_sort_def comparePoints_def scanStep_def
      scanInit_def)
  then show ?thesis by (simp add: coveredByHit_def inRange_def covers_def)
qed

lemma Map_get_Map_set: "Map_get (Map_set m k v) k' = (if k' = k then Some v else Map_get m k')"
  by (induction m) (auto simp: Map_get_def)

lemma Map_keys_Map_set:
  "Map_keys (Map_set m k v) = (if k \<in> set (Map_keys m) then Map_keys m else Map_keys m @ [k])"
  by (induction m) (force simp: Map_keys_def)+

lemma Map_get_None_iff: "Map_get m k = None \<longleftrightarrow> k \<notin> set (Map_keys m)"
  by (simp add: Map_get_def Map_keys_def map_of_eq_None_iff)

lemma cacheConsistent_Nil: "cacheConsistent [] []"
  by (simp add: cacheConsistent_def)

lemma cacheConsistent_Map_set:
  "cacheConsistent urls sources \<Longrightarrow> cacheConsistent (Map_set urls k u) (Map_set sources k t)"
  using Map_keys_Map_set [of urls k u] Map_keys_Map_set [of sources k t]
  by (auto simp: cacheConsistent_def Map_keys_def)

subsection \<open>The loop of the script tracker\<close>

lemma JSCoverage_collect_eq:
  "JSCoverage_collect st es acc = acc @ List.map_filter (JSCoverage_entryFor st) es"
  by (induction es arbitrary: acc) (auto simp: List.map_filter_simps split: option.splits)

lemma JSCoverage_entryFor_cong:
  assumes "scriptURLs st' = scriptURLs st" and "scriptSources st' = scriptSources st"
    and "reportAnonymousScripts st' = reportAnonymousScripts st"
    and "includeRawScriptCoverage st' = includeRawScriptCoverage st"
  shows "JSCoverage_entryFor st' e = JSCoverage_entryFor st e"
  unfolding JSCoverage_entryFor_def assms ..

lemma JSCoverage_stop_result:
  assumes "enabled st"
  shows "fst (JSCoverage_stop st (Inr snapshot))
           = Inr (List.map_filter (JSCoverage_entryFor st) snapshot)"
proof -
  define st2 where "st2 = (st\<lparr>enabled := False\<rparr>)
    \<lparr>subscriptions := map_option (\<lambda>_. []) (subscriptions (st\<lparr>enabled := False\<rparr>))\<rparr>"
  have "JSCoverage_stop st (Inr snapshot) = (Inr (JSCoverage_collect st2 snapshot []), st2)"
    using assms by (simp add: JSCoverage_stop_def Let_def st2_def)
  moreover have "JSCoverage_entryFor st2 = JSCoverage_entryFor st"
    by (rule ext, rule JSCoverage_entryFor_cong) (simp_all add: st2_def)
  ultimately show ?thesis by (simp add: JSCoverage_collect_eq)
qed

lemma JSCoverage_entryFor_uncached:
  "Map_get (scriptSources st) (scriptId e) = None \<Longrightarrow> JSCoverage_entryFor st e = None"
  by (simp add: JSCoverage_entryFor_def Let_def)


lemma set_map_filter: "set (List.map_filter f xs) = {y. \<exists>x\<in>set xs. f x = Some y}"
  by (induction xs) (auto simp: List.map_filter_simps split: option.splits)

subsection \<open>The loops of the stylesheet tracker\<close>

lemma Map_get_aggregateRuleUsage:
  "sid \<notin> ru_styleSheetId ` set usage \<Longrightarrow>
     Map_get (aggregateRuleUsage m usage) sid = Map_get m sid"
  by (induction usage arbitrary: m) (auto simp: Map_get_Map_set Let_def split: option.splits)

lemma convertToDisjointRanges_Nil: "convertToDisjointRanges [] = []"
  by (simp add: convertToDisjointRanges_def array_sort_def scanInit_def)

lemma CSSCoverage_collect_total:
  assumes "\<forall>sid\<in>set ks. Map_get (stylesheetURLs st) sid \<noteq> None
                          \<and> Map_get (stylesheetSources st) sid \<noteq> None"
  shows "\<exists>res. CSSCoverage_collect st m ks acc = Inr (acc @ res) \<and> list_all2 (entryOf st m) ks res"
  using assms
proof (induction ks arbitrary: acc)
  case Nil
  then show ?case by simp
next
  case (Cons k ks)
  from Cons.prems obtain u t where u: "Map_get (stylesheetURLs st) k = Some u"
    and t: "Map_get (stylesheetSources st) k = Some t" by auto
  let ?x = "\<lparr>url = u, text' = t,
             ranges = convertToDisjointRanges (case Map_get m k of None \<Rightarrow> [] | Some rs \<Rightarrow> rs)\<rparr>"
  from Cons.IH [of "acc @ [?x]"] Cons.prems obtain res
    where "CSSCoverage_collect st m ks (acc @ [?x]) = Inr ((acc @ [?x]) @ res)"
      and "list_all2 (entryOf st m) ks res" by auto
  with u t have "CSSCoverage_collect st m (k # ks) acc = Inr (acc @ ?x # res)"
    and "list_all2 (entryOf st m) (k # ks) (?x # res)"
    by (simp_all add: entryOf_def)
  then show ?case by blast
qed

lemma CSSCoverage_stop_result:
  assumes "enabled' st" and "cacheConsistent (stylesheetURLs st) (stylesheetSources st)"
  shows "\<exists>res. fst (CSSCoverage_stop st (Inr usage) (Inr ())) = Inr res
           \<and> list_all2 (entryOf st (aggregateRuleUsage [] usage)) (Map_keys (stylesheetURLs st)) res"
proof -
  let ?st2 = "st\<lparr>enabled' := False, eventListeners := map_option (\<lambda>_. []) (eventListeners st)\<rparr>"
  have "\<forall>sid\<in>set (Map_keys (stylesheetURLs ?st2)).
          Map_get (stylesheetURLs ?st2) sid \<noteq> None \<and> Map_get (stylesheetSources ?st2) sid \<noteq> None"
    using assms(2) by (simp add: Map_get_None_iff) (simp add: cacheConsistent_def Map_keys_def)
  from CSSCoverage_collect_total [OF this, of "aggregateRuleUsage [] usage" "[]"]
  obtain res where "CSSCoverage_collect ?st2 (aggregateRuleUsage [] usage)
                      (Map_keys (stylesheetURLs ?st2)) [] = Inr res"
    and "list_all2 (entryOf ?st2 (aggregateRuleUsage [] usage)) (Map_keys (stylesheetURLs ?st2)) res"
    by auto
  moreover have "entryOf ?st2 = entryOf st"
    by (intro ext) (simp add: entryOf_def)
  ultimately show ?thesis using assms(1)
    by (simp add: CSSCoverage_stop_def Let_def)
qed


lemma list_all2_map_of:
  assumes "distinct (map fst m)"
    and "list_all2 (\<lambda>k x. map_of m k = Some (g x)) (map fst m) res"
  shows "map g res = map snd m"
proof (rule nth_equalityI)
  from assms(2) have len: "length res = length m"
    by (auto dest: list_all2_lengthD)
  then show "length (map g res) = length (map snd m)" by simp
  fix i assume "i < length (map g res)"
  with len have i: "i < length m" by simp
  with assms(2) have "map_of m (fst (m ! i)) = Some (g (res ! i))"
    by (auto simp: list_all2_conv_all_nth)
  moreover have "(fst (m ! i), snd (m ! i)) \<in> set m" using i by simp
  then have "map_of m (fst (m ! i)) = Some (snd (m ! i))"
    using assms(1) by simp
  ultimately show "map g res ! i = map snd m ! i" using i len by simp
qed

subsection \<open>The cache of the stylesheet tracker stays consistent\<close>

lemma cacheConsistent_CSSCoverage_start:
  "cacheConsistent (stylesheetURLs st) (stylesheetSources st) \<Longrightarrow>
     cacheConsistent (stylesheetURLs (snd (CSSCoverage_start st options reply)))
       (stylesheetSources (snd (CSSCoverage_start st options reply)))"
  by (simp add: CSSCoverage_start_def Let_def cacheConsistent_Nil)

lemma cacheConsistent_CSSCoverage_onStyleSheet_resume:
  "cacheConsistent (stylesheetURLs st) (stylesheetSources st) \<Longrightarrow>
     cacheConsistent (stylesheetURLs (CSSCoverage_onStyleSheet_resume event response st))
       (stylesheetSources (CSSCoverage_onStyleSheet_resume event response st))"
  by (cases response) (simp_all add: CSSCoverage_onStyleSheet_resume_def cacheConsistent_Map_set)

lemma cacheConsistent_CSSCoverage_onExecutionContextsCleared:
  "cacheConsistent (stylesheetURLs st) (stylesheetSources st) \<Longrightarrow>
     cacheConsistent (stylesheetURLs (CSSCoverage_onExecutionContextsCleared st))
       (stylesheetSources (CSSCoverage_onExecutionContextsCleared st))"
  by (simp add: CSSCoverage_onExecutionContextsCleared_def cacheConsistent_Nil)

lemma cacheConsistent_CSSCoverage_stop:
  "cacheConsistent (stylesheetURLs st) (stylesheetSources st) \<Longrightarrow>
     cacheConsistent (stylesheetURLs (snd (CSSCoverage_stop st reply1 reply2)))
       (stylesheetSources (snd (CSSCoverage_stop st reply1 reply2)))"
  by (simp add: CSSCoverage_stop_def Let_def split: sum.splits)

lemma CSSCoverage_reachable_consistent:
  "CSSCoverage_reachable st \<Longrightarrow> cacheConsistent (stylesheetURLs st) (stylesheetSources st)"
proof (induction rule: CSSCoverage_reachable.induct)
  case new
  show ?case by (simp add: CSSCoverage_new_def cacheConsistent_Nil)
next
  case (start st options reply)
  then show ?case by (intro cacheConsistent_CSSCoverage_start)
next
  case (styleSheet st event response)
  then show ?case by (intro cacheConsistent_CSSCoverage_onStyleSheet_resume)
next
  case (cleared st)
  then show ?case by (intro cacheConsistent_CSSCoverage_onExecutionContextsCleared)
next
  case (stop st reply1 reply2)
  then show ?case by (intro cacheConsistent_CSSCoverage_stop)
qed

lemma CSSCoverage_stop_urls:
  assumes "enabled' st" and "cacheConsistent (stylesheetURLs st) (stylesheetSources st)"
    and "fst (CSSCoverage_stop st (Inr usage) (Inr ())) = Inr res"
  shows "list_all2 (entryOf st (aggregateRuleUsage [] usage)) (Map_keys (stylesheetURLs st)) res"
    and "map url res = map snd (stylesheetURLs st)"
    and "map text' res = map snd (stylesheetSources st)"
proof -
  from CSSCoverage_stop_result [OF assms(1,2), of usage] assms(3)
  show all2: "list_all2 (entryOf st (aggregateRuleUsage [] usage)) (Map_keys (stylesheetURLs st)) res"
    by auto
  from assms(2) have keys: "map fst (stylesheetSources st) = map fst (stylesheetURLs st)"
    and d1: "distinct (map fst (stylesheetURLs st))" and d2: "distinct (map fst (stylesheetSources st))"
    by (auto simp: cacheConsistent_def)
  have "list_all2 (\<lambda>k x. map_of (stylesheetURLs st) k = Some (url x)) (map fst (stylesheetURLs st)) res"
    using all2 by (auto simp: entryOf_def Map_get_def Map_keys_def elim: list_all2_mono)
  then show "map url res = map snd (stylesheetURLs st)"
    by (rule list_all2_map_of [OF d1])
  have "list_all2 (\<lambda>k x. map_of (stylesheetSources st) k = Some (text' x))
          (map fst (stylesheetSources st)) res"
    using all2 unfolding keys by (auto simp: entryOf_def Map_get_def Map_keys_def elim: list_all2_mono)
  then show "map text' res = map snd (stylesheetSources st)"
    by (rule list_all2_map_of [OF d2])
qed

lemma twoScripts_eq:
  "twoScripts =
     \<lparr>enabled = True, scriptURLs = [(''1'', ''a.js''), (''2'', ''b.js'')],
      scriptSources = [(''1'', ''f()''), (''2'', ''g()'')],
      subscriptions = Some [''Debugger.scriptParsed'', ''Runtime.executionContextsCleared''],
      resetOnNavigation = True, reportAnonymousScripts = False,
      includeRawScriptCoverage = False\<rparr>"
  by (simp add: twoScripts_def noOptions_def JSCoverage_start_def JSCoverage_new_def
      JSCoverage_onScriptParsed_resume_def orDefault_def)

lemma twoSheets_eq:
  "twoSheets =
     \<lparr>enabled' = True, stylesheetURLs = [(''s'', ''a.css''), (''t'', ''b.css'')],
      stylesheetSources = [(''s'', ''p {}''), (''t'', ''q {}'')],
      eventListeners = Some [''CSS.styleSheetAdded'', ''Runtime.executionContextsCleared''],
      resetOnNavigation' = True\<rparr>"
  by (simp add: twoSheets_def CSSCoverage_start_def CSSCoverage_new_def
      CSSCoverage_onStyleSheet_resume_def orDefault_def)


subsection \<open>The guards of start and stop\<close>

text \<open>
  C6. \<open>start\<close> on an enabled tracker fails with the already-enabled assertion and \<open>stop\<close> on
  a tracker that is not enabled fails with the not-enabled assertion; in both cases every
  field of the tracker (the enabled flag, the caches, the configuration, the subscriptions)
  is as before the call. This holds for the script tracker and for the stylesheet tracker,
  whatever the options and the protocol's replies.
\<close>

theorem lifecycle_guards:
  "(enabled js \<longrightarrow>
      JSCoverage_start js options reply
        = (Inl (AssertionError ''JSCoverage is already enabled''), js))
   \<and> (\<not> enabled js' \<longrightarrow>
      JSCoverage_stop js' snapshot
        = (Inl (AssertionError ''JSCoverage is not enabled''), js'))
   \<and> (enabled' css \<longrightarrow>
      CSSCoverage_start css options' reply'
        = (Inl (AssertionError ''CSSCoverage is already enabled''), css))
   \<and> (\<not> enabled' css' \<longrightarrow>
      CSSCoverage_stop css' reply1 reply2
        = (Inl (AssertionError ''CSSCoverage is not enabled''), css'))"
  by (simp add: JSCoverage_start_def JSCoverage_stop_def CSSCoverage_start_def
      CSSCoverage_stop_def)

text \<open>
  The four guards on new trackers, enabled or not.
\<close>

theorem lifecycle_guards_witness:
  "enabled (JSCoverage_new\<lparr>enabled := True\<rparr>)
   \<and> JSCoverage_start (JSCoverage_new\<lparr>enabled := True\<rparr>)
        \<lparr>opt_resetOnNavigation = None, opt_reportAnonymousScripts = Some True,
         opt_includeRawScriptCoverage = None, opt_useBlockCoverage = None\<rparr> (Inr ())
       = (Inl (AssertionError ''JSCoverage is already enabled''),
          JSCoverage_new\<lparr>enabled := True\<rparr>)
   \<and> \<not> enabled JSCoverage_new
   \<and> JSCoverage_stop JSCoverage_new (Inr [])
       = (Inl (AssertionError ''JSCoverage is not enabled''), JSCoverage_new)
   \<and> enabled' (CSSCoverage_new\<lparr>enabled' := True\<rparr>)
   \<and> CSSCoverage_start (CSSCoverage_new\<lparr>enabled' := True\<rparr>)
        \<lparr>opt_resetOnNavigation' = Some False\<rparr> (Inr ())
       = (Inl (AssertionError ''CSSCoverage is already enabled''),
          CSSCoverage_new\<lparr>enabled' := True\<rparr>)
   \<and> \<not> enabled' CSSCoverage_new
   \<and> CSSCoverage_stop CSSCoverage_new (Inr []) (Inr ())
       = (Inl (AssertionError ''CSSCoverage is not enabled''), CSSCoverage_new)"
  using lifecycle_guards [of "JSCoverage_new\<lparr>enabled := True\<rparr>"
      "\<lparr>opt_resetOnNavigation = None, opt_reportAnonymousScripts = Some True,
         opt_includeRawScriptCoverage = None, opt_useBlockCoverage = None\<rparr>" "Inr ()"
      JSCoverage_new "Inr []" "CSSCoverage_new\<lparr>enabled' := True\<rparr>"
      "\<lparr>opt_resetOnNavigation' = Some False\<rparr>" "Inr ()" CSSCoverage_new "Inr []" "Inr ()"]
  by (simp add: JSCoverage_new_def CSSCoverage_new_def)

subsection \<open>The handler of cleared execution contexts\<close>

text \<open>
  C9. The handler of \<open>Runtime.executionContextsCleared\<close>: with \<open>resetOnNavigation\<close> set it
  empties the URL map and the source map and changes no other field; without it the
  tracker is unchanged. In either case the enabled flag, the subscriptions and the
  configuration flags are those of before. This holds for both trackers.
\<close>

theorem onExecutionContextsCleared_frame:
  "(resetOnNavigation js \<longrightarrow>
      JSCoverage_onExecutionContextsCleared js = js\<lparr>scriptURLs := [], scriptSources := []\<rparr>)
   \<and> (\<not> resetOnNavigation js' \<longrightarrow> JSCoverage_onExecutionContextsCleared js' = js')
   \<and> enabled (JSCoverage_onExecutionContextsCleared js) = enabled js
   \<and> subscriptions (JSCoverage_onExecutionContextsCleared js) = subscriptions js
   \<and> resetOnNavigation (JSCoverage_onExecutionContextsCleared js) = resetOnNavigation js
   \<and> reportAnonymousScripts (JSCoverage_onExecutionContextsCleared js)
       = reportAnonymousScripts js
   \<and> includeRawScriptCoverage (JSCoverage_onExecutionContextsCleared js)
       = includeRawScriptCoverage js
   \<and> (resetOnNavigation' css \<longrightarrow>
      CSSCoverage_onExecutionContextsCleared css
        = css\<lparr>stylesheetURLs := [], stylesheetSources := []\<rparr>)
   \<and> (\<not> resetOnNavigation' css' \<longrightarrow> CSSCoverage_onExecutionContextsCleared css' = css')
   \<and> enabled' (CSSCoverage_onExecutionContextsCleared css) = enabled' css
   \<and> eventListeners (CSSCoverage_onExecutionContextsCleared css) = eventListeners css
   \<and> resetOnNavigation' (CSSCoverage_onExecutionContextsCleared css) = resetOnNavigation' css"
  by (simp add: JSCoverage_onExecutionContextsCleared_def
      CSSCoverage_onExecutionContextsCleared_def)

text \<open>
  An enabled tracker of each kind with one cached resource, with and without
  \<open>resetOnNavigation\<close>.
\<close>

theorem onExecutionContextsCleared_frame_witness:
  "resetOnNavigation
     \<lparr>enabled = True, scriptURLs = [(''1'', ''a.js'')], scriptSources = [(''1'', ''f()'')],
      subscriptions = Some [''Debugger.scriptParsed'', ''Runtime.executionContextsCleared''],
      resetOnNavigation = True, reportAnonymousScripts = False,
      includeRawScriptCoverage = False\<rparr>
   \<and> JSCoverage_onExecutionContextsCleared
     \<lparr>enabled = True, scriptURLs = [(''1'', ''a.js'')], scriptSources = [(''1'', ''f()'')],
      subscriptions = Some [''Debugger.scriptParsed'', ''Runtime.executionContextsCleared''],
      resetOnNavigation = True, reportAnonymousScripts = False,
      includeRawScriptCoverage = False\<rparr>
     = \<lparr>enabled = True, scriptURLs = [], scriptSources = [],
        subscriptions = Some [''Debugger.scriptParsed'', ''Runtime.executionContextsCleared''],
        resetOnNavigation = True, reportAnonymousScripts = False,
        includeRawScriptCoverage = False\<rparr>
   \<and> \<not> resetOnNavigation
     \<lparr>enabled = True, scriptURLs = [(''1'', ''a.js'')], scriptSources = [(''1'', ''f()'')],
      subscriptions = Some [''Debugger.scriptParsed'', ''Runtime.executionContextsCleared''],
      resetOnNavigation = False, reportAnonymousScripts = False,
      includeRawScriptCoverage = False\<rparr>
   \<and> JSCoverage_onExecutionContextsCleared
     \<lparr>enabled = True, scriptURLs = [(''1'', ''a.js'')], scriptSources = [(''1'', ''f()'')],
      subscriptions = Some [''Debugger.scriptParsed'', ''Runtime.executionContextsCleared''],
      resetOnNavigation = False, reportAnonymousScripts = False,
      includeRawScriptCoverage = False\<rparr>
     = \<lparr>enabled = True, scriptURLs = [(''1'', ''a.js'')], scriptSources = [(''1'', ''f()'')],
        subscriptions = Some [''Debugger.scriptParsed'', ''Runtime.executionContextsCleared''],
        resetOnNavigation = False, reportAnonymousScripts = False,
        includeRawScriptCoverage = False\<rparr>
   \<and> resetOnNavigation'
     \<lparr>enabled' = True, stylesheetURLs = [(''s'', ''a.css'')],
      stylesheetSources = [(''s'', ''p {}'')], eventListeners = Some [''CSS.styleSheetAdded''],
      resetOnNavigation' = True\<rparr>
   \<and> CSSCoverage_onExecutionContextsCleared
     \<lparr>enabled' = True, stylesheetURLs = [(''s'', ''a.css'')],
      stylesheetSources = [(''s'', ''p {}'')], eventListeners = Some [''CSS.styleSheetAdded''],
      resetOnNavigation' = True\<rparr>
     = \<lparr>enabled' = True, stylesheetURLs = [], stylesheetSources = [],
        eventListeners = Some [''CSS.styleSheetAdded''], resetOnNavigation' = True\<rparr>
   \<and> \<not> resetOnNavigation'
     \<lparr>enabled' = True, stylesheetURLs = [(''s'', ''a.css'')],
      stylesheetSources = [(''s'', ''p {}'')], eventListeners = Some [''CSS.styleSheetAdded''],
      resetOnNavigation' = False\<rparr>
   \<and> CSSCoverage_onExecutionContextsCleared
     \<lparr>enabled' = True, stylesheetURLs = [(''s'', ''a.css'')],
      stylesheetSources = [(''s'', ''p {}'')], eventListeners = Some [''CSS.styleSheetAdded''],
      resetOnNavigation' = False\<rparr>
     = \<lparr>enabled' = True, stylesheetURLs = [(''s'', ''a.css'')],
        stylesheetSources = [(''s'', ''p {}'')], eventListeners = Some [''CSS.styleSheetAdded''],
        resetOnNavigation' = False\<rparr>"
  using onExecutionContextsCleared_frame [of
     "\<lparr>enabled = True, scriptURLs = [(''1'', ''a.js'')], scriptSources = [(''1'', ''f()'')],
      subscriptions = Some [''Debugger.scriptParsed'', ''Runtime.executionContextsCleared''],
      resetOnNavigation = True, reportAnonymousScripts = False,
      includeRawScriptCoverage = False\<rparr>"
     "\<lparr>enabled = True, scriptURLs = [(''1'', ''a.js'')], scriptSources = [(''1'', ''f()'')],
      subscriptions = Some [''Debugger.scriptParsed'', ''Runtime.executionContextsCleared''],
      resetOnNavigation = False, reportAnonymousScripts = False,
      includeRawScriptCoverage = False\<rparr>"
     "\<lparr>enabled' = True, stylesheetURLs = [(''s'', ''a.css'')],
      stylesheetSources = [(''s'', ''p {}'')], eventListeners = Some [''CSS.styleSheetAdded''],
      resetOnNavigation' = True\<rparr>"
     "\<lparr>enabled' = True, stylesheetURLs = [(''s'', ''a.css'')],
      stylesheetSources = [(''s'', ''p {}'')], eventListeners = Some [''CSS.styleSheetAdded''],
      resetOnNavigation' = False\<rparr>"]
  by simp

subsection \<open>Anonymous scripts\<close>




subsection \<open>The order of the results of stop\<close>

lemma fst_stopJSCoverage:
  "fst (stopJSCoverage c reply) = fst (JSCoverage_stop (jsCoverage c) reply)"
  by (simp add: stopJSCoverage_def split_beta)

lemma fst_stopCSSCoverage:
  "fst (stopCSSCoverage c reply1 reply2) = fst (CSSCoverage_stop (cssCoverage c) reply1 reply2)"
  by (simp add: stopCSSCoverage_def split_beta)

text \<open>
  C8, amended. In every state of the stylesheet tracker \<open>stopCSSCoverage\<close> resolves to one
  entry for each key of the stylesheet URL map, in the iteration order of that map (the
  entries match the keys one by one, and their URLs are the map's values in order); a
  successful fetch of a stylesheet not yet in the map appends its id to that order, a
  repeated one keeps the order and a failed one changes nothing. \<open>stopJSCoverage\<close>
  resolves instead to the entries of the snapshot's scripts in the order in which the
  profiler's snapshot lists them, the scripts without an entry left out.
\<close>

theorem stop_result_order:
  "(enabled' (cssCoverage c) \<and> CSSCoverage_reachable (cssCoverage c) \<longrightarrow>
      (\<exists>res. fst (stopCSSCoverage c (Inr usage) (Inr ())) = Inr res
         \<and> list_all2 (entryOf (cssCoverage c) (aggregateRuleUsage [] usage))
              (Map_keys (stylesheetURLs (cssCoverage c))) res
         \<and> map url res = map snd (stylesheetURLs (cssCoverage c))))
   \<and> (enabled (jsCoverage c') \<longrightarrow>
        fst (stopJSCoverage c' (Inr snapshot))
          = Inr (List.map_filter (JSCoverage_entryFor (jsCoverage c')) snapshot))
   \<and> Map_keys (stylesheetURLs (CSSCoverage_onStyleSheet_resume event (Inr txt) css))
       = (if styleSheetId (header event) \<in> set (Map_keys (stylesheetURLs css))
          then Map_keys (stylesheetURLs css)
          else Map_keys (stylesheetURLs css) @ [styleSheetId (header event)])
   \<and> Map_keys (stylesheetURLs (CSSCoverage_onStyleSheet_resume event (Inl err) css))
       = Map_keys (stylesheetURLs css)"
proof (intro conjI impI)
  assume "enabled' (cssCoverage c) \<and> CSSCoverage_reachable (cssCoverage c)"
  then have a: "enabled' (cssCoverage c)
      \<and> cacheConsistent (stylesheetURLs (cssCoverage c)) (stylesheetSources (cssCoverage c))"
    by (simp add: CSSCoverage_reachable_consistent)
  then obtain res where res: "fst (CSSCoverage_stop (cssCoverage c) (Inr usage) (Inr ())) = Inr res"
    using CSSCoverage_stop_result [of "cssCoverage c" usage] by blast
  with CSSCoverage_stop_urls(1,2) [OF _ _ res] a
  show "\<exists>res. fst (stopCSSCoverage c (Inr usage) (Inr ())) = Inr res
         \<and> list_all2 (entryOf (cssCoverage c) (aggregateRuleUsage [] usage))
              (Map_keys (stylesheetURLs (cssCoverage c))) res
         \<and> map url res = map snd (stylesheetURLs (cssCoverage c))"
    by (simp add: fst_stopCSSCoverage)
next
  assume "enabled (jsCoverage c')"
  from JSCoverage_stop_result [OF this, of snapshot]
  show "fst (stopJSCoverage c' (Inr snapshot))
          = Inr (List.map_filter (JSCoverage_entryFor (jsCoverage c')) snapshot)"
    by (simp add: fst_stopJSCoverage)
next
  show "Map_keys (stylesheetURLs (CSSCoverage_onStyleSheet_resume event (Inr txt) css))
       = (if styleSheetId (header event) \<in> set (Map_keys (stylesheetURLs css))
          then Map_keys (stylesheetURLs css)
          else Map_keys (stylesheetURLs css) @ [styleSheetId (header event)])"
    by (simp add: CSSCoverage_onStyleSheet_resume_def Map_keys_Map_set)
next
  show "Map_keys (stylesheetURLs (CSSCoverage_onStyleSheet_resume event (Inl err) css))
       = Map_keys (stylesheetURLs css)"
    by (simp add: CSSCoverage_onStyleSheet_resume_def)
qed

text \<open>
  Two cached stylesheets and two cached scripts.
\<close>

theorem stop_result_order_witness:
  "enabled' twoSheets \<and> CSSCoverage_reachable twoSheets \<and> enabled twoScripts
   \<and> (\<exists>res. fst (stopCSSCoverage \<lparr>jsCoverage = twoScripts, cssCoverage = twoSheets\<rparr>
                   (Inr []) (Inr ())) = Inr res
         \<and> map url res = [''a.css'', ''b.css''])
   \<and> fst (stopJSCoverage \<lparr>jsCoverage = twoScripts, cssCoverage = twoSheets\<rparr> (Inr []))
       = Inr []"
proof -
  have h1: "enabled' twoSheets" and h3: "enabled twoScripts"
    by (simp_all add: twoSheets_eq twoScripts_eq)
  have h2: "CSSCoverage_reachable twoSheets"
    unfolding twoSheets_def by (intro CSSCoverage_reachable.intros)
  note w = stop_result_order [where c = "\<lparr>jsCoverage = twoScripts, cssCoverage = twoSheets\<rparr>"
      and usage = "[]" and c' = "\<lparr>jsCoverage = twoScripts, cssCoverage = twoSheets\<rparr>"
      and snapshot = "[]"]
  from w [THEN conjunct1] h1 h2
  obtain res where "fst (stopCSSCoverage \<lparr>jsCoverage = twoScripts, cssCoverage = twoSheets\<rparr>
                   (Inr []) (Inr ())) = Inr res"
    and "map url res = map snd (stylesheetURLs twoSheets)"
    by auto
  then have "\<exists>res. fst (stopCSSCoverage \<lparr>jsCoverage = twoScripts, cssCoverage = twoSheets\<rparr>
                   (Inr []) (Inr ())) = Inr res \<and> map url res = [''a.css'', ''b.css'']"
    by (simp add: twoSheets_eq)
  moreover from w [THEN conjunct2, THEN conjunct1] h3
  have "fst (stopJSCoverage \<lparr>jsCoverage = twoScripts, cssCoverage = twoSheets\<rparr> (Inr []))
       = Inr []"
    by (simp add: List.map_filter_simps)
  ultimately show ?thesis using h1 h2 h3 by blast
qed

text \<open>
  C8 as stated fails for scripts: after the sources of script 1 (\<open>a.js\<close>) and script 2
  (\<open>b.js\<close>) were fetched in this order, a snapshot that lists script 2 before script 1
  makes \<open>stopJSCoverage\<close> return the entry of \<open>b.js\<close> before that of \<open>a.js\<close>.
\<close>

theorem stopJSCoverage_order_counterexample:
  "Map_keys (scriptURLs twoScripts) = [''1'', ''2'']
   \<and> map snd (scriptURLs twoScripts) = [''a.js'', ''b.js'']
   \<and> fst (stopJSCoverage \<lparr>jsCoverage = twoScripts, cssCoverage = CSSCoverage_new\<rparr>
        (Inr [\<lparr>scriptId = ''2'', url' = ''b.js'', functions' = []\<rparr>,
              \<lparr>scriptId = ''1'', url' = ''a.js'', functions' = []\<rparr>]))
     = Inr [\<lparr>url = ''b.js'', text' = ''g()'', ranges = [], rawScriptCoverage = None\<rparr>,
            \<lparr>url = ''a.js'', text' = ''f()'', ranges = [], rawScriptCoverage = None\<rparr>]"
  by (simp add: twoScripts_eq Map_keys_def stopJSCoverage_def JSCoverage_stop_def
      JSCoverage_entryFor_def Map_get_def convertToDisjointRanges_Nil)

subsection \<open>Resources without usage data\<close>

text \<open>
  C10. At \<open>stop\<close> the stylesheet tracker, in every state it can reach, returns one entry
  for each stylesheet of its cache, and the entry of a stylesheet for which the target
  reported no rule usage has an empty list of ranges. The script tracker returns only
  entries made from an entry of the profiler's snapshot whose script is cached: with an
  empty snapshot the result is empty whatever the cache holds, and a snapshot entry of a
  script that is not cached yields nothing.
\<close>

theorem stop_without_usage:
  "(enabled' css \<and> CSSCoverage_reachable css \<longrightarrow>
      (\<exists>res. fst (CSSCoverage_stop css (Inr usage) (Inr ())) = Inr res
         \<and> list_all2 (entryOf css (aggregateRuleUsage [] usage))
              (Map_keys (stylesheetURLs css)) res
         \<and> length res = length (Map_keys (stylesheetURLs css))
         \<and> (\<forall>i<length res.
               Map_keys (stylesheetURLs css) ! i \<notin> ru_styleSheetId ` set usage \<longrightarrow>
               ranges (res ! i) = [])))
   \<and> (enabled js \<longrightarrow>
      (\<exists>res. fst (JSCoverage_stop js (Inr snapshot)) = Inr res
         \<and> (\<forall>x\<in>set res. \<exists>e\<in>set snapshot.
               JSCoverage_entryFor js e = Some x
               \<and> Map_get (scriptSources js) (scriptId e) \<noteq> None)))
   \<and> (enabled js' \<longrightarrow> fst (JSCoverage_stop js' (Inr [])) = Inr [])
   \<and> (Map_get (scriptSources js'') (scriptId entry) = None \<longrightarrow>
        JSCoverage_entryFor js'' entry = None)"
proof (intro conjI impI)
  assume "enabled' css \<and> CSSCoverage_reachable css"
  then have a: "enabled' css \<and> cacheConsistent (stylesheetURLs css) (stylesheetSources css)"
    by (simp add: CSSCoverage_reachable_consistent)
  then obtain res where res: "fst (CSSCoverage_stop css (Inr usage) (Inr ())) = Inr res"
    and all2: "list_all2 (entryOf css (aggregateRuleUsage [] usage)) (Map_keys (stylesheetURLs css)) res"
    using CSSCoverage_stop_result [of css usage] by blast
  have "ranges (res ! i) = []"
    if "i < length res" "Map_keys (stylesheetURLs css) ! i \<notin> ru_styleSheetId ` set usage" for i
  proof -
    from all2 that(1)
    have "entryOf css (aggregateRuleUsage [] usage) (Map_keys (stylesheetURLs css) ! i) (res ! i)"
      by (simp add: list_all2_conv_all_nth)
    moreover have "Map_get (aggregateRuleUsage [] usage) (Map_keys (stylesheetURLs css) ! i) = None"
      using Map_get_aggregateRuleUsage [OF that(2), of "[]"] by (simp add: Map_get_def)
    ultimately show ?thesis by (simp add: entryOf_def convertToDisjointRanges_Nil)
  qed
  with res all2
  show "\<exists>res. fst (CSSCoverage_stop css (Inr usage) (Inr ())) = Inr res
         \<and> list_all2 (entryOf css (aggregateRuleUsage [] usage))
              (Map_keys (stylesheetURLs css)) res
         \<and> length res = length (Map_keys (stylesheetURLs css))
         \<and> (\<forall>i<length res.
               Map_keys (stylesheetURLs css) ! i \<notin> ru_styleSheetId ` set usage \<longrightarrow>
               ranges (res ! i) = [])"
    by (auto dest: list_all2_lengthD)
next
  assume "enabled js"
  from JSCoverage_stop_result [OF this, of snapshot]
  have "fst (JSCoverage_stop js (Inr snapshot))
          = Inr (List.map_filter (JSCoverage_entryFor js) snapshot)" .
  moreover have "\<exists>e\<in>set snapshot. JSCoverage_entryFor js e = Some x
                     \<and> Map_get (scriptSources js) (scriptId e) \<noteq> None"
    if "x \<in> set (List.map_filter (JSCoverage_entryFor js) snapshot)" for x
  proof -
    from that obtain e where e: "e \<in> set snapshot" "JSCoverage_entryFor js e = Some x"
      by (auto simp: set_map_filter)
    with JSCoverage_entryFor_uncached [of js e]
    have "Map_get (scriptSources js) (scriptId e) \<noteq> None" by auto
    with e show ?thesis by blast
  qed
  ultimately
  show "\<exists>res. fst (JSCoverage_stop js (Inr snapshot)) = Inr res
         \<and> (\<forall>x\<in>set res. \<exists>e\<in>set snapshot.
               JSCoverage_entryFor js e = Some x
               \<and> Map_get (scriptSources js) (scriptId e) \<noteq> None)"
    by blast
next
  assume "enabled js'"
  from JSCoverage_stop_result [OF this, of "[]"]
  show "fst (JSCoverage_stop js' (Inr [])) = Inr []"
    by (simp add: List.map_filter_simps)
next
  assume "Map_get (scriptSources js'') (scriptId entry) = None"
  then show "JSCoverage_entryFor js'' entry = None"
    by (rule JSCoverage_entryFor_uncached)
qed

text \<open>
  Two cached stylesheets without rule usage, and a snapshot of a script that is not cached.
\<close>

theorem stop_without_usage_witness:
  "enabled' twoSheets \<and> CSSCoverage_reachable twoSheets \<and> enabled twoScripts
   \<and> Map_get (scriptSources twoScripts) (scriptId \<lparr>scriptId = ''9'', url' = ''c.js'', functions' = []\<rparr>)
       = None
   \<and> fst (CSSCoverage_stop twoSheets (Inr []) (Inr ()))
       = Inr [\<lparr>url = ''a.css'', text' = ''p {}'', ranges = []\<rparr>,
              \<lparr>url = ''b.css'', text' = ''q {}'', ranges = []\<rparr>]
   \<and> fst (JSCoverage_stop twoScripts
            (Inr [\<lparr>scriptId = ''9'', url' = ''c.js'', functions' = []\<rparr>])) = Inr []
   \<and> fst (JSCoverage_stop twoScripts (Inr [])) = Inr []
   \<and> JSCoverage_entryFor twoScripts \<lparr>scriptId = ''9'', url' = ''c.js'', functions' = []\<rparr> = None"
proof -
  have h1: "enabled' twoSheets" and h3: "enabled twoScripts"
    by (simp_all add: twoSheets_eq twoScripts_eq)
  have h2: "CSSCoverage_reachable twoSheets"
    unfolding twoSheets_def by (intro CSSCoverage_reachable.intros)
  have h4: "Map_get (scriptSources twoScripts)
       (scriptId \<lparr>scriptId = ''9'', url' = ''c.js'', functions' = []\<rparr>) = None"
    by (simp add: twoScripts_eq Map_get_def)
  note w = stop_without_usage [where css = twoSheets and usage = "[]" and js = twoScripts
      and snapshot = "[\<lparr>scriptId = ''9'', url' = ''c.js'', functions' = []\<rparr>]"
      and js' = twoScripts and js'' = twoScripts
      and entry = "\<lparr>scriptId = ''9'', url' = ''c.js'', functions' = []\<rparr>"]
  from w h3 have c3: "fst (JSCoverage_stop twoScripts (Inr [])) = Inr []" by blast
  from w h4 have c4: "JSCoverage_entryFor twoScripts
      \<lparr>scriptId = ''9'', url' = ''c.js'', functions' = []\<rparr> = None" by blast
  have c1: "fst (CSSCoverage_stop twoSheets (Inr []) (Inr ()))
       = Inr [\<lparr>url = ''a.css'', text' = ''p {}'', ranges = []\<rparr>,
              \<lparr>url = ''b.css'', text' = ''q {}'', ranges = []\<rparr>]"
    by (simp add: twoSheets_eq CSSCoverage_stop_def Map_keys_def Map_get_def
        convertToDisjointRanges_Nil)
  have c2: "fst (JSCoverage_stop twoScripts
            (Inr [\<lparr>scriptId = ''9'', url' = ''c.js'', functions' = []\<rparr>])) = Inr []"
    using c4 JSCoverage_stop_result [OF h3] by (simp add: List.map_filter_simps)
  from h1 h2 h3 h4 c1 c2 c3 c4 show ?thesis by blast
qed

end
